theory Spec2Isabelle
  imports Complex_Main "HOL-Library.Word"
begin

unbundle bit_operations_syntax

section \<open>Data model\<close>

text \<open>
  The module \<^verbatim>\<open>py_xre_tiff\<close> (\<^verbatim>\<open>src/py_xre_tiff/__init__.py\<close>) reads and writes
  single-page, uncompressed 16-bit grayscale TIFF files whose image-description tag
  carries a linear calibration \<open>slope\<close>, \<open>offset\<close>. Its functions
  \<^verbatim>\<open>read_xre_tif\<close>, \<^verbatim>\<open>write_xre_tif\<close> and \<^verbatim>\<open>_extract_slope_offset\<close> are
  embedded below as \<open>read_xre_tif\<close>, \<open>write_xre_tif\<close> (with \<open>to_u16_data\<close> for its
  first statement) and \<open>extract_slope_offset\<close>. What they call in numpy, in the image
  library and in Python itself (floating-point arithmetic, array casts,
  \<^verbatim>\<open>Image.fromarray\<close>, \<^verbatim>\<open>save\<close>, \<^verbatim>\<open>open\<close>, \<^verbatim>\<open>re.search\<close>, \<^verbatim>\<open>float\<close>, the
  \<^verbatim>\<open>.6E\<close> format) is modelled from the documented behaviour of those libraries.
\<close>

type_synonym u16 = "16 word"
type_synonym byte = "8 word"

datatype error = ValueError | FileNotFoundError | OSError

subsection \<open>Floating-point numbers\<close>

text \<open>
  A Python float (binary64) or an element of a numpy float array (binary32 or binary64):
  a finite value, given by the rational number it denotes, the negative zero, an
  infinity, or a NaN. \<open>Fin 0\<close> is the positive zero. The sign of a zero is kept where it
  shows, in the Python floats \<open>slope\<close> and \<open>offset\<close> (their text, and what \<^verbatim>\<open>float\<close>
  returns); a zero that arithmetic produces is \<open>Fin 0\<close>, whatever its sign.
\<close>

datatype fp = Fin rat | NZero | PInf | NInf | NaN

fun is_finite :: "fp \<Rightarrow> bool" where
  "is_finite (Fin x) = True"
| "is_finite NZero = True"
| "is_finite v = False"

fun fp_val :: "fp \<Rightarrow> rat" where
  "fp_val (Fin x) = x"
| "fp_val v = 0"

text \<open>\<^verbatim>\<open>v == 0\<close>\<close>

definition is_zero :: "fp \<Rightarrow> bool" where
  "is_zero v \<longleftrightarrow> v = Fin 0 \<or> v = NZero"

fun sign_bit :: "fp \<Rightarrow> bool" where
  "sign_bit (Fin x) = (x < 0)"
| "sign_bit NZero = True"
| "sign_bit NInf = True"
| "sign_bit v = False"

definition inf_of :: "bool \<Rightarrow> fp" where
  "inf_of neg = (if neg then NInf else PInf)"

text \<open>The position of the leading binary digit of \<open>k\<close>.\<close>

fun ilog2 :: "nat \<Rightarrow> nat" where
  "ilog2 k = (if k < 2 then 0 else Suc (ilog2 (k div 2)))"

definition pow2 :: "int \<Rightarrow> rat" where
  "pow2 e = (if 0 \<le> e then 2 ^ nat e else 1 / 2 ^ nat (- e))"

text \<open>The binary exponent of \<open>x \<noteq> 0\<close>: the \<open>e\<close> with \<open>2 ^ e \<le> \<bar>x\<bar> < 2 ^ (e + 1)\<close>.\<close>

definition exponent2 :: "rat \<Rightarrow> int" where
  "exponent2 x =
     (if 1 \<le> \<bar>x\<bar> then int (ilog2 (nat \<lfloor>\<bar>x\<bar>\<rfloor>))
      else - int (Suc (ilog2 (nat \<lceil>1 / \<bar>x\<bar>\<rceil> - 1))))"

text \<open>Rounding to the nearest integer, ties to even, of a value \<open>y \<ge> 0\<close>.\<close>

definition round_half_even :: "rat \<Rightarrow> nat" where
  "round_half_even y =
     (let f = \<lfloor>y\<rfloor>; r = y - of_int f
      in nat (if r < 1 / 2 then f else if 1 / 2 < r then f + 1
              else if even f then f else f + 1))"

text \<open>
  IEEE 754 rounding to nearest, ties to even, into the binary format of precision \<open>p\<close>
  and exponent range \<open>emin..emax\<close>: the value is rounded to a multiple of the spacing at
  its exponent (the subnormal spacing below \<open>2 ^ emin\<close>), and a result of
  \<open>2 ^ (emax + 1)\<close> or more is an infinity.
\<close>

definition round_to :: "nat \<Rightarrow> int \<Rightarrow> int \<Rightarrow> rat \<Rightarrow> fp" where
  "round_to p emin emax x =
     (if x = 0 then Fin 0
      else
        (let e = max emin (exponent2 x);
             q = pow2 (e - int p + 1);
             r = of_nat (round_half_even (\<bar>x\<bar> / q)) * q
         in if pow2 (emax + 1) \<le> r then inf_of (x < 0) else Fin (sgn x * r)))"

definition fl32 :: "rat \<Rightarrow> fp" where
  "fl32 = round_to 24 (- 126) 127"

definition fl64 :: "rat \<Rightarrow> fp" where
  "fl64 = round_to 53 (- 1022) 1023"

text \<open>
  The four operations, \<open>rnd\<close> being the rounding of the format they are computed in.
  A division by a zero gives an infinity, or a NaN for \<open>0 / 0\<close>; no operation raises.
\<close>

definition fp_add :: "(rat \<Rightarrow> fp) \<Rightarrow> fp \<Rightarrow> fp \<Rightarrow> fp" where
  "fp_add rnd a b =
     (if a = NaN \<or> b = NaN then NaN
      else if is_finite a \<and> is_finite b then rnd (fp_val a + fp_val b)
      else if is_finite b then a
      else if is_finite a then b
      else if a = b then a else NaN)"

fun fp_neg :: "fp \<Rightarrow> fp" where
  "fp_neg (Fin x) = (if x = 0 then NZero else Fin (- x))"
| "fp_neg NZero = Fin 0"
| "fp_neg PInf = NInf"
| "fp_neg NInf = PInf"
| "fp_neg NaN = NaN"

definition fp_sub :: "(rat \<Rightarrow> fp) \<Rightarrow> fp \<Rightarrow> fp \<Rightarrow> fp" where
  "fp_sub rnd a b = fp_add rnd a (fp_neg b)"

definition fp_mul :: "(rat \<Rightarrow> fp) \<Rightarrow> fp \<Rightarrow> fp \<Rightarrow> fp" where
  "fp_mul rnd a b =
     (if a = NaN \<or> b = NaN then NaN
      else if is_finite a \<and> is_finite b then rnd (fp_val a * fp_val b)
      else if is_zero a \<or> is_zero b then NaN
      else inf_of (sign_bit a \<noteq> sign_bit b))"

definition fp_div :: "(rat \<Rightarrow> fp) \<Rightarrow> fp \<Rightarrow> fp \<Rightarrow> fp" where
  "fp_div rnd a b =
     (if a = NaN \<or> b = NaN then NaN
      else if is_finite a \<and> is_finite b then
        (if is_zero b then (if is_zero a then NaN else inf_of (sign_bit a \<noteq> sign_bit b))
         else rnd (fp_val a / fp_val b))
      else if is_finite a then Fin 0
      else if is_finite b then inf_of (sign_bit a \<noteq> sign_bit b)
      else NaN)"

text \<open>
  A Python float that meets a float32 array in an operation is first converted to
  float32 (NumPy 2; NumPy 1 does the same unless the value is beyond the float32 range).
\<close>

definition to_f32 :: "fp \<Rightarrow> fp" where
  "to_f32 v = (case v of Fin x \<Rightarrow> fl32 x | _ \<Rightarrow> v)"

subsection \<open>Arrays\<close>

text \<open>A two-dimensional numpy array: its shape and its row-major buffer.\<close>

record 'a ndarray =
  nrows :: nat
  ncols :: nat
  flat :: "'a list"

definition wf_ndarray :: "'a ndarray \<Rightarrow> bool" where
  "wf_ndarray a \<longleftrightarrow> length (flat a) = nrows a * ncols a"

text \<open>The specification's PixelGrid: width and height are positive.\<close>

definition pixel_grid :: "'a ndarray \<Rightarrow> bool" where
  "pixel_grid a \<longleftrightarrow> wf_ndarray a \<and> 0 < nrows a \<and> 0 < ncols a"

definition map_ndarray :: "('a \<Rightarrow> 'b) \<Rightarrow> 'a ndarray \<Rightarrow> 'b ndarray" where
  "map_ndarray f a = \<lparr>nrows = nrows a, ncols = ncols a, flat = map f (flat a)\<rparr>"

text \<open>
  \<^verbatim>\<open>data\<close> with its dtype. The code asks whether the dtype is \<^verbatim>\<open>np.uint16\<close>; for
  the others the dtype decides the format the arithmetic runs in. An integer array of
  another dtype behaves as the float64 array of its values.
\<close>

datatype array = UInt16 "u16 ndarray" | Float32 "fp ndarray" | Float64 "fp ndarray"

fun dtype_is_uint16 :: "array \<Rightarrow> bool" where
  "dtype_is_uint16 (UInt16 a) = True"
| "dtype_is_uint16 a = False"

subsection \<open>numpy conversions\<close>

definition trunc :: "rat \<Rightarrow> int" where
  "trunc x = (if 0 \<le> x then \<lfloor>x\<rfloor> else \<lceil>x\<rceil>)"

text \<open>
  \<^verbatim>\<open>.astype(np.uint16)\<close> on a float array is the C conversion: the fraction is
  dropped (truncation toward zero). A value whose truncation lies in \<open>0..65535\<close> is
  converted exactly. Outside that range C leaves the result undefined; numpy on x86-64
  converts through a signed integer and keeps the low 16 bits, so that \<open>-1\<close> becomes
  65535 and 70000 becomes 4464. The model fixes this behaviour, with the 32-bit
  conversion, which gives 0 once its own range is left, and for an infinity or a NaN.
\<close>

definition astype_uint16 :: "fp \<Rightarrow> u16" where
  "astype_uint16 v =
     (if is_finite v then
        (let t = trunc (fp_val v)
         in if - (2 ^ 31) \<le> t \<and> t < 2 ^ 31 then word_of_int t else 0)
      else 0)"

text \<open>
  \<^verbatim>\<open>np.clip(x, 0, 65535)\<close> is \<^verbatim>\<open>minimum(maximum(x, 0), 65535)\<close>; a NaN stays a NaN.
\<close>

definition clip :: "fp \<Rightarrow> fp" where
  "clip v =
     (if v = NaN then NaN
      else if v = PInf then Fin 65535
      else if v = NInf then Fin 0
      else Fin (min (max (fp_val v) 0) 65535))"

text \<open>\<^verbatim>\<open>data.astype(np.float32)\<close> on a uint16 array: every sample is representable.\<close>

definition astype_float32 :: "u16 \<Rightarrow> fp" where
  "astype_float32 s = Fin (of_int (uint s))"

section \<open>The TIFF container and the image library\<close>

text \<open>
  A file as the image library writes it and reads it back: the image size, one strip of
  little-endian 16-bit samples, and the ASCII tags ImageDescription (270) and
  Software (305).
\<close>

record tiff_file =
  width :: nat
  height :: nat
  strip :: "byte list"
  description :: "string option"
  software :: "string option"

type_synonym filesystem = "string \<rightharpoonup> tiff_file"

text \<open>
  An opened image: its size (width, height), its raw \<^verbatim>\<open>I;16\<close> bytes, and the tag
  directory \<^verbatim>\<open>tag_v2\<close>, an attribute only images opened from a TIFF file have.
\<close>

record image =
  size_wh :: "nat \<times> nat"
  raw :: "byte list"
  tag_v2 :: "(nat \<rightharpoonup> string) option"

definition le_bytes :: "u16 \<Rightarrow> byte list" where
  "le_bytes s = [ucast s, ucast (drop_bit 8 s)]"

fun le_words :: "byte list \<Rightarrow> u16 list" where
  "le_words (lo # hi # bs) = (push_bit 8 (ucast hi) OR ucast lo) # le_words bs"
| "le_words bs = []"

text \<open>\<^verbatim>\<open>Image.fromarray(u16_data, mode='I;16')\<close>\<close>

definition fromarray :: "u16 ndarray \<Rightarrow> image" where
  "fromarray a =
     \<lparr>size_wh = (ncols a, nrows a), raw = concat (map le_bytes (flat a)), tag_v2 = None\<rparr>"

text \<open>\<^verbatim>\<open>img.save(path, format='TIFF', compression=None, description=..., software=...)\<close>\<close>

definition save :: "image \<Rightarrow> string \<Rightarrow> string \<Rightarrow> tiff_file" where
  "save img desc sw =
     \<lparr>width = fst (size_wh img), height = snd (size_wh img), strip = raw img,
      description = Some desc, software = Some sw\<rparr>"

definition tags_of :: "tiff_file \<Rightarrow> (nat \<rightharpoonup> string)" where
  "tags_of f = (\<lambda>t. if t = 270 then description f else if t = 305 then software f else None)"

text \<open>\<^verbatim>\<open>Image.open(path)\<close>: a missing file raises.\<close>

definition open_image :: "filesystem \<Rightarrow> string \<Rightarrow> error + image" where
  "open_image fs path =
     (case fs path of
        None \<Rightarrow> Inl FileNotFoundError
      | Some f \<Rightarrow>
          Inr \<lparr>size_wh = (width f, height f), raw = strip f, tag_v2 = Some (tags_of f)\<rparr>)"

text \<open>
  \<^verbatim>\<open>np.array(img, dtype=np.uint16)\<close>: loads the pixel data, which raises on a strip
  shorter than the image, and gives an array of shape (height, width).
\<close>

definition np_array :: "image \<Rightarrow> error + u16 ndarray" where
  "np_array img =
     (let w = fst (size_wh img); h = snd (size_wh img)
      in if length (raw img) < 2 * (h * w) then Inl OSError
         else Inr \<lparr>nrows = h, ncols = w, flat = le_words (take (2 * (h * w)) (raw img))\<rparr>)"

section \<open>The calibration text\<close>

subsection \<open>Formatting: \<^verbatim>\<open>f"{x:.6E}"\<close>\<close>

definition digit_char :: "nat \<Rightarrow> char" where
  "digit_char d = ''0123456789'' ! (d mod 10)"

text \<open>The decimal digits of \<open>k\<close>, zero-padded on the left to exactly \<open>n\<close> digits.\<close>

definition pad :: "nat \<Rightarrow> nat \<Rightarrow> string" where
  "pad n k = map (\<lambda>i. digit_char (k div 10 ^ i)) (rev [0..<n])"

text \<open>The number of decimal digits of \<open>k\<close>, minus one.\<close>

fun ilog10 :: "nat \<Rightarrow> nat" where
  "ilog10 k = (if k < 10 then 0 else Suc (ilog10 (k div 10)))"

definition pow10 :: "int \<Rightarrow> rat" where
  "pow10 e = (if 0 \<le> e then 10 ^ nat e else 1 / 10 ^ nat (- e))"

text \<open>
  The decimal exponent of \<open>x \<noteq> 0\<close>: the \<open>e\<close> with \<open>10 ^ e \<le> \<bar>x\<bar> < 10 ^ (e + 1)\<close>,
  read off the integer part of \<open>\<bar>x\<bar>\<close>, or of its inverse when \<open>\<bar>x\<bar> < 1\<close>.
\<close>

definition exponent10 :: "rat \<Rightarrow> int" where
  "exponent10 x =
     (if 1 \<le> \<bar>x\<bar> then int (ilog10 (nat \<lfloor>\<bar>x\<bar>\<rfloor>))
      else - int (Suc (ilog10 (nat \<lceil>1 / \<bar>x\<bar>\<rceil> - 1))))"

text \<open>
  The seven significant digits and the exponent of \<open>x \<noteq> 0\<close>; a mantissa that rounds
  up to \<open>10 ^ 7\<close> moves to the next exponent.
\<close>

definition sci7 :: "rat \<Rightarrow> nat \<times> int" where
  "sci7 x =
     (let e = exponent10 x; m = round_half_even (\<bar>x\<bar> / pow10 (e - 6))
      in if m = 10 ^ 7 then (10 ^ 6, e + 1) else (m, e))"

text \<open>The exponent is written with its sign and at least two digits.\<close>

definition format_exp :: "int \<Rightarrow> string" where
  "format_exp e =
     (if e < 0 then ''-'' else ''+'') @ pad (max 2 (Suc (ilog10 (nat \<bar>e\<bar>)))) (nat \<bar>e\<bar>)"

text \<open>The text of a finite value: its exact value, correctly rounded to seven digits.\<close>

definition sci_6E :: "rat \<Rightarrow> string" where
  "sci_6E x =
     (let (m, e) = (if x = 0 then (0, 0) else sci7 x)
      in (if x < 0 then ''-'' else []) @ pad 1 (m div 10 ^ 6) @ ''.'' @ pad 6 (m mod 10 ^ 6)
         @ ''E'' @ format_exp e)"

fun format_6E :: "fp \<Rightarrow> string" where
  "format_6E (Fin x) = sci_6E x"
| "format_6E NZero = ''-'' @ sci_6E 0"
| "format_6E PInf = ''INF''"
| "format_6E NInf = ''-INF''"
| "format_6E NaN = ''NAN''"

text \<open>\<^verbatim>\<open>description = f"slope = {slope:.6E} offset = {offset:.6E}"\<close> (line 93).\<close>

definition format_description :: "fp \<Rightarrow> fp \<Rightarrow> string" where
  "format_description slope offset =
     ''slope = '' @ format_6E slope @ '' offset = '' @ format_6E offset"

subsection \<open>Parsing: the two regular expressions and \<^verbatim>\<open>float()\<close>\<close>

text \<open>
  The description is a latin-1 string, one \<open>char\<close> per character. On such a string
  \<^verbatim>\<open>\s\<close> matches the characters below, \<^verbatim>\<open>\d\<close> the ten ASCII digits, and
  \<^verbatim>\<open>re.IGNORECASE\<close> lets a letter of the pattern match its upper-case form.
\<close>

definition is_space :: "char \<Rightarrow> bool" where
  "is_space c \<longleftrightarrow> (of_char c :: nat) \<in> {9, 10, 11, 12, 13, 28, 29, 30, 31, 32, 133, 160}"

definition is_digit :: "char \<Rightarrow> bool" where
  "is_digit c \<longleftrightarrow> c \<in> set ''0123456789''"

text \<open>The character class \<^verbatim>\<open>[\d.Ee+-]\<close>.\<close>

definition number_char :: "char \<Rightarrow> bool" where
  "number_char c \<longleftrightarrow> is_digit c \<or> c \<in> set ''.Ee+-''"

definition lower :: "char \<Rightarrow> char" where
  "lower c =
     (case map_of (zip ''ABCDEFGHIJKLMNOPQRSTUVWXYZ'' ''abcdefghijklmnopqrstuvwxyz'') c of
        None \<Rightarrow> c
      | Some l \<Rightarrow> l)"

text \<open>
  A match of \<^verbatim>\<open>kw\s*=\s*([\d.Ee+-]+)\<close> at the start of \<open>text\<close>, returning group 1.
  The three character sets are disjoint and \<open>=\<close> is in none of them, so each greedy
  repetition takes its maximal run and there is nothing to backtrack into.
\<close>

definition match_at :: "string \<Rightarrow> string \<Rightarrow> string option" where
  "match_at kw text =
     (if map lower (take (length kw) text) = kw then
        (case dropWhile is_space (drop (length kw) text) of
           [] \<Rightarrow> None
         | c # r \<Rightarrow>
             if c = CHR ''='' then
               (let g = takeWhile number_char (dropWhile is_space r)
                in if g = [] then None else Some g)
             else None)
      else None)"

text \<open>\<^verbatim>\<open>re.search\<close>: the match at the leftmost position that has one.\<close>

fun re_search :: "string \<Rightarrow> string \<Rightarrow> string option" where
  "re_search kw [] = match_at kw []"
| "re_search kw (c # cs) =
     (case match_at kw (c # cs) of Some g \<Rightarrow> Some g | None \<Rightarrow> re_search kw cs)"

definition digits_value :: "string \<Rightarrow> nat" where
  "digits_value ds = foldl (\<lambda>a c. 10 * a + (of_char c - 48)) 0 ds"

definition split_sign :: "string \<Rightarrow> bool \<times> string" where
  "split_sign s =
     (case s of
        [] \<Rightarrow> (False, [])
      | c # r \<Rightarrow> if c = CHR ''-'' then (True, r) else if c = CHR ''+'' then (False, r)
                 else (False, s))"

text \<open>
  The decimal number a string of characters of the class above spells, as \<^verbatim>\<open>float\<close>
  reads it: an optional sign, digits with an optional point (at least one digit in
  all), and an optional exponent \<open>e\<close> or \<open>E\<close> with an optional sign and at least one
  digit. Anything else raises \<^verbatim>\<open>ValueError\<close>.
\<close>

definition decimal_of_string :: "string \<Rightarrow> error + rat" where
  "decimal_of_string s =
     (let (neg, s1) = split_sign s;
          ip = takeWhile is_digit s1; s2 = dropWhile is_digit s1;
          (fp, s3) = (case s2 of
                        [] \<Rightarrow> ([], [])
                      | c # r \<Rightarrow> if c = CHR ''.'' then (takeWhile is_digit r, dropWhile is_digit r)
                                 else ([], s2));
          m = of_nat (digits_value (ip @ fp)) * pow10 (- int (length fp));
          sg = (if neg then - 1 else 1)
      in if ip = [] \<and> fp = [] then Inl ValueError
         else (case s3 of
                 [] \<Rightarrow> Inr (sg * m)
               | c # r \<Rightarrow>
                   if c = CHR ''e'' \<or> c = CHR ''E'' then
                     (let (eneg, r1) = split_sign r;
                          ed = takeWhile is_digit r1; rest = dropWhile is_digit r1;
                          ex = int (digits_value ed)
                      in if ed = [] \<or> rest \<noteq> [] then Inl ValueError
                         else Inr (sg * m * pow10 (if eneg then - ex else ex)))
                   else Inl ValueError))"

text \<open>
  \<^verbatim>\<open>float(s)\<close>: the binary64 value nearest to the decimal number, an infinity beyond
  the range; a zero takes the sign the string has.
\<close>

definition float_of_string :: "string \<Rightarrow> error + fp" where
  "float_of_string s =
     (case decimal_of_string s of
        Inl e \<Rightarrow> Inl e
      | Inr x \<Rightarrow> Inr (if fl64 x = Fin 0 \<and> take 1 s = ''-'' then NZero else fl64 x))"

text \<open>
  \<^verbatim>\<open>_extract_slope_offset(img)\<close> (lines 102 to 132): the defaults, the three guards
  (\<^verbatim>\<open>hasattr(img, 'tag_v2')\<close>, the tag, \<^verbatim>\<open>if desc\<close>), both searches, then the two
  conversions, slope first; an exception of \<^verbatim>\<open>float\<close> is not caught.
\<close>

definition extract_slope_offset :: "image \<Rightarrow> error + fp \<times> fp" where
  "extract_slope_offset img =
     (case tag_v2 img of
        None \<Rightarrow> Inr (Fin 1, Fin 0)
      | Some tags \<Rightarrow>
          (case tags 270 of
             None \<Rightarrow> Inr (Fin 1, Fin 0)
           | Some desc \<Rightarrow>
               if desc = [] then Inr (Fin 1, Fin 0)
               else
                 (let slope_match = re_search ''slope'' desc;
                      offset_match = re_search ''offset'' desc
                  in case (case slope_match of None \<Rightarrow> Inr (Fin 1)
                           | Some g \<Rightarrow> float_of_string g) of
                       Inl e \<Rightarrow> Inl e
                     | Inr slope \<Rightarrow>
                         (case (case offset_match of None \<Rightarrow> Inr (Fin 0)
                                | Some g \<Rightarrow> float_of_string g) of
                            Inl e \<Rightarrow> Inl e
                          | Inr offset \<Rightarrow> Inr (slope, offset)))))"

section \<open>Reading and writing\<close>

text \<open>
  \<^verbatim>\<open>read_xre_tif(path, rescale)\<close> (lines 18 to 47). Line 45,
  \<^verbatim>\<open>data.astype(np.float32) * slope + offset\<close>, is float32 arithmetic: the slope and
  the offset are converted to float32, and the product and the sum are each rounded.
\<close>

definition read_xre_tif :: "filesystem \<Rightarrow> string \<Rightarrow> bool \<Rightarrow> error + array" where
  "read_xre_tif fs path rescale =
     (case open_image fs path of
        Inl e \<Rightarrow> Inl e
      | Inr img \<Rightarrow>
          (case np_array img of
             Inl e \<Rightarrow> Inl e
           | Inr data \<Rightarrow>
               if rescale then
                 (case extract_slope_offset img of
                    Inl e \<Rightarrow> Inl e
                  | Inr (slope, offset) \<Rightarrow>
                      Inr (Float32 (map_ndarray
                             (\<lambda>s. fp_add fl32 (fp_mul fl32 (astype_float32 s) (to_f32 slope))
                                                (to_f32 offset)) data)))
               else Inr (UInt16 data)))"

text \<open>
  The first statement of \<^verbatim>\<open>write_xre_tif\<close> (lines 77 to 87): the conversion of
  \<^verbatim>\<open>data\<close> to \<^verbatim>\<open>u16_data\<close>. The zero-slope check and the unclamped cast sit in
  the branch taken when \<^verbatim>\<open>rescale and data.dtype != np.uint16\<close>; the other branch
  clips, or passes a uint16 array through. Line 81, \<^verbatim>\<open>(data - offset) / slope\<close>, runs
  in the format of \<^verbatim>\<open>data\<close>: for a float32 array the offset and the slope are
  converted to float32, and the difference and the quotient are each rounded.
\<close>

definition to_u16_data :: "array \<Rightarrow> bool \<Rightarrow> fp \<Rightarrow> fp \<Rightarrow> error + u16 ndarray" where
  "to_u16_data data rescale slope offset =
     (if rescale \<and> \<not> dtype_is_uint16 data then
        (if is_zero slope then Inl ValueError
         else (case data of
                 Float32 a \<Rightarrow>
                   Inr (map_ndarray
                          (\<lambda>x. astype_uint16 (fp_div fl32 (fp_sub fl32 x (to_f32 offset))
                                                            (to_f32 slope))) a)
               | Float64 a \<Rightarrow>
                   Inr (map_ndarray
                          (\<lambda>x. astype_uint16 (fp_div fl64 (fp_sub fl64 x offset) slope)) a)
               | UInt16 a \<Rightarrow> Inr a))
      else
        (case data of
           UInt16 a \<Rightarrow> Inr a
         | Float32 a \<Rightarrow> Inr (map_ndarray (\<lambda>x. astype_uint16 (clip x)) a)
         | Float64 a \<Rightarrow> Inr (map_ndarray (\<lambda>x. astype_uint16 (clip x)) a)))"

text \<open>
  \<^verbatim>\<open>write_xre_tif(path, data, rescale, slope, offset)\<close> (lines 50 to 99): the outcome
  and the file system after the call. An exception leaves the file system as it was.
\<close>

definition write_xre_tif ::
  "filesystem \<Rightarrow> string \<Rightarrow> array \<Rightarrow> bool \<Rightarrow> fp \<Rightarrow> fp \<Rightarrow> (error + unit) \<times> filesystem" where
  "write_xre_tif fs path data rescale slope offset =
     (case to_u16_data data rescale slope offset of
        Inl e \<Rightarrow> (Inl e, fs)
      | Inr u16_data \<Rightarrow>
          (let img = fromarray u16_data;
               description = format_description slope offset
           in (Inr (), fs(path \<mapsto> save img description ''py_xre_tiff''))))"

text \<open>
  The value of the text \<open>sci_6E x\<close>: \<open>x\<close> rounded to seven significant decimal digits.
\<close>

definition round7 :: "rat \<Rightarrow> rat" where
  "round7 x = (if x = 0 then 0 else (let (m, e) = sci7 x in sgn x * of_nat m * pow10 (e - 6)))"

text \<open>
  The inverse conversion as the specification words it: the quotient is truncated toward
  zero and clamped into \<open>0..65535\<close> before the cast; a zero slope is an error.
\<close>

definition toStored_spec :: "rat \<Rightarrow> rat \<Rightarrow> rat \<Rightarrow> error + u16" where
  "toStored_spec physical slope offset =
     (if slope = 0 then Inl ValueError
      else Inr (word_of_int (max 0 (min 65535 (trunc ((physical - offset) / slope))))))"

text \<open>Concrete inputs used below.\<close>

definition sample_grid :: "u16 ndarray" where
  "sample_grid = \<lparr>nrows = 2, ncols = 2, flat = [0, 1, 4660, 65535]\<rparr>"

definition physical_grid :: "fp ndarray" where
  "physical_grid = \<lparr>nrows = 1, ncols = 2, flat = [Fin 200, Fin (601 / 4)]\<rparr>"

definition sample_file :: tiff_file where
  "sample_file =
     \<lparr>width = 2, height = 1, strip = [200, 0, 100, 0],
      description = Some ''slope = 5.000000E-01 offset = 1.000000E+02'', software = None\<rparr>"

definition trailing_dot_file :: tiff_file where
  "trailing_dot_file =
     \<lparr>width = 1, height = 1, strip = [7, 0],
      description = Some ''slope = 0.5.'', software = None\<rparr>"

section \<open>Evaluation rules\<close>

lemma floor_rat_numeral [simp]:
  "\<lfloor>numeral a / numeral b :: rat\<rfloor> = numeral a div numeral b"
  by (metis floor_divide_of_int_eq of_int_numeral)

lemma floor_rat_neg_numeral [simp]:
  "\<lfloor>- (numeral a / numeral b) :: rat\<rfloor> = - numeral a div numeral b"
  by (metis floor_divide_of_int_eq of_int_numeral of_int_minus minus_divide_left)

lemma floor_rat_one_numeral [simp]:
  "\<lfloor>1 / numeral b :: rat\<rfloor> = 1 div numeral b"
  by (metis floor_divide_of_int_eq of_int_numeral of_int_1)

declare ilog10.simps [simp del]

declare ilog2.simps [simp del]

lemmas float_eval = fl32_def fl64_def round_to_def exponent2_def pow2_def round_half_even_def
  inf_of_def to_f32_def fp_add_def fp_sub_def fp_mul_def fp_div_def is_zero_def Let_def
  ilog2.simps ceiling_def

lemmas parse_eval = extract_slope_offset_def match_at_def lower_def is_space_def number_char_def
  is_digit_def float_of_string_def decimal_of_string_def split_sign_def digits_value_def
  pow10_def tags_of_def

lemmas format_eval = format_description_def sci_6E_def sci7_def exponent10_def pow10_def
  round_half_even_def format_exp_def digit_char_def pad_def Let_def upt_rec ilog10.simps

lemmas cast_eval = to_u16_data_def map_ndarray_def astype_uint16_def trunc_def clip_def
  ceiling_def astype_float32_def

section \<open>The pixel strip\<close>

lemma le_word_bytes:
  "push_bit 8 (ucast (ucast (drop_bit 8 s) :: byte)) OR ucast (ucast s :: byte) = (s :: u16)"
  by (rule bit_word_eqI) (auto simp add: bit_simps)

lemma le_words_le_bytes: "le_words (concat (map le_bytes xs)) = xs"
  by (induction xs) (simp_all add: le_bytes_def le_word_bytes)

lemma length_le_bytes: "length (concat (map le_bytes xs)) = 2 * length xs"
  by (induction xs) (simp_all add: le_bytes_def)

lemma np_array_fromarray: "wf_ndarray a \<Longrightarrow> np_array (fromarray a) = Inr a"
  by (simp add: np_array_def fromarray_def wf_ndarray_def length_le_bytes le_words_le_bytes
      mult.commute)

lemma np_array_tags: "np_array \<lparr>size_wh = size_wh img, raw = raw img, tag_v2 = t\<rparr> = np_array img"
  by (simp add: np_array_def Let_def)

lemma wf_map_ndarray: "wf_ndarray a \<Longrightarrow> wf_ndarray (map_ndarray f a)"
  by (simp add: wf_ndarray_def map_ndarray_def)

section \<open>Writing, then reading\<close>

lemma write_ok:
  assumes "to_u16_data data rescale slope offset = Inr u"
  shows "write_xre_tif fs path data rescale slope offset =
           (Inr (), fs(path \<mapsto> save (fromarray u) (format_description slope offset) ''py_xre_tiff''))"
  using assms by (simp add: write_xre_tif_def)

lemma open_saved:
  "open_image (fs(path \<mapsto> save img d sw)) path =
     Inr \<lparr>size_wh = size_wh img, raw = raw img, tag_v2 = Some (tags_of (save img d sw))\<rparr>"
  by (simp add: open_image_def save_def)

lemma read_saved_raw:
  assumes "wf_ndarray u"
  shows "read_xre_tif (fs(path \<mapsto> save (fromarray u) d sw)) path False = Inr (UInt16 u)"
  using assms by (simp add: read_xre_tif_def open_saved np_array_tags np_array_fromarray)

lemma extract_saved:
  "extract_slope_offset \<lparr>size_wh = a, raw = b, tag_v2 = Some (tags_of (save img d sw))\<rparr>
     = extract_slope_offset \<lparr>size_wh = (0, 0), raw = [], tag_v2 = Some [270 \<mapsto> d]\<rparr>"
  by (simp add: extract_slope_offset_def tags_of_def save_def)

lemma read_saved_rescaled:
  assumes "wf_ndarray u"
    and "extract_slope_offset \<lparr>size_wh = (0, 0), raw = [], tag_v2 = Some [270 \<mapsto> d]\<rparr>
           = Inr (s, o')"
  shows "read_xre_tif (fs(path \<mapsto> save (fromarray u) d sw)) path True
           = Inr (Float32 (map_ndarray
                    (\<lambda>x. fp_add fl32 (fp_mul fl32 (astype_float32 x) (to_f32 s)) (to_f32 o')) u))"
  using assms
  by (simp add: read_xre_tif_def open_saved np_array_tags np_array_fromarray extract_saved)

text \<open>
  C1. A uint16 array written with \<open>rescale = False\<close>, whatever slope and offset are
  passed, and read back with \<open>rescale = False\<close> is returned unchanged: the write
  succeeds and the read yields a uint16 array equal to the original in shape and in
  every element.
\<close>

theorem roundtrip_no_rescale:
  assumes "wf_ndarray a"
  shows "fst (write_xre_tif fs path (UInt16 a) False slope offset) = Inr () \<and>
         read_xre_tif (snd (write_xre_tif fs path (UInt16 a) False slope offset)) path False
           = Inr (UInt16 a)"
proof -
  have "to_u16_data (UInt16 a) False slope offset = Inr a"
    by (simp add: to_u16_data_def)
  then show ?thesis
    using assms by (simp add: write_ok read_saved_raw)
qed

theorem roundtrip_no_rescale_witness:
  "wf_ndarray sample_grid \<and>
   read_xre_tif (snd (write_xre_tif Map.empty ''a.tif'' (UInt16 sample_grid) False (Fin 2) (Fin 3)))
     ''a.tif'' False = Inr (UInt16 sample_grid)"
proof -
  have w: "wf_ndarray sample_grid"
    by (simp add: wf_ndarray_def sample_grid_def)
  from roundtrip_no_rescale [OF w] w show ?thesis by simp
qed

section \<open>Conversion to stored samples\<close>

lemma astype_uint16_in_range:
  assumes "0 \<le> trunc x" and "trunc x < 65536"
  shows "uint (astype_uint16 (Fin x)) = trunc x"
proof -
  have "- (2 ^ 31) \<le> trunc x \<and> trunc x < 2 ^ 31" using assms by simp
  then have "astype_uint16 (Fin x) = word_of_int (trunc x)" by (simp add: astype_uint16_def)
  moreover have "uint (word_of_int (trunc x) :: u16) = trunc x"
    using assms by (simp add: uint_word_of_int take_bit_int_eq_self)
  ultimately show ?thesis by simp
qed

lemma trunc_nonneg: "0 \<le> x \<Longrightarrow> trunc x = \<lfloor>x\<rfloor>"
  by (simp add: trunc_def)

lemma trunc_clip_range:
  "0 \<le> trunc (min (max x 0) 65535) \<and> trunc (min (max x 0) 65535) \<le> 65535"
  by (auto simp add: trunc_def min_def max_def floor_le_iff le_floor_iff)

lemma astype_uint16_clip: "uint (astype_uint16 (clip (Fin x))) = trunc (min (max x 0) 65535)"
proof -
  have "clip (Fin x) = Fin (min (max x 0) 65535)" by (simp add: clip_def)
  then show ?thesis
    using trunc_clip_range [of x] astype_uint16_in_range [of "min (max x 0) 65535"] by simp
qed

text \<open>
  C2, at the failing input. With \<open>rescale = True\<close>, slope 1 and offset 0, the float32
  samples \<open>-1\<close> and \<open>70000\<close> are stored as 65535 and 4464: the quotient is cast without
  being clamped. The conversion the specification describes stores 0 and 65535.
\<close>

theorem inverse_rescale_not_clamped:
  "read_xre_tif (snd (write_xre_tif Map.empty ''a.tif''
        (Float32 \<lparr>nrows = 1, ncols = 2, flat = [Fin (- 1), Fin 70000]\<rparr>) True (Fin 1) (Fin 0)))
     ''a.tif'' False
     = Inr (UInt16 \<lparr>nrows = 1, ncols = 2, flat = [65535, 4464]\<rparr>) \<and>
   toStored_spec (- 1) 1 0 = Inr 0 \<and> toStored_spec 70000 1 0 = Inr 65535"
proof -
  have u: "to_u16_data (Float32 \<lparr>nrows = 1, ncols = 2, flat = [Fin (- 1), Fin 70000]\<rparr>) True
             (Fin 1) (Fin 0) = Inr \<lparr>nrows = 1, ncols = 2, flat = [65535, 4464]\<rparr>"
    by (simp add: cast_eval float_eval)
  have w: "wf_ndarray \<lparr>nrows = 1, ncols = 2, flat = [65535, 4464 :: u16]\<rparr>"
    by (simp add: wf_ndarray_def)
  have "read_xre_tif (snd (write_xre_tif Map.empty ''a.tif''
        (Float32 \<lparr>nrows = 1, ncols = 2, flat = [Fin (- 1), Fin 70000]\<rparr>) True (Fin 1) (Fin 0)))
     ''a.tif'' False
     = Inr (UInt16 \<lparr>nrows = 1, ncols = 2, flat = [65535, 4464]\<rparr>)"
    by (subst write_ok [OF u]) (simp only: snd_conv read_saved_raw [OF w])
  moreover have "toStored_spec (- 1) 1 0 = Inr 0 \<and> toStored_spec 70000 1 0 = Inr 65535"
    by (simp add: toStored_spec_def trunc_def ceiling_def)
  ultimately show ?thesis by simp
qed

text \<open>
  Where the quotient the code computes is finite and lies in \<open>[0, 65536)\<close>, the cast
  stores the quotient truncated, which is also its clamped truncation; and a zero slope
  is refused. The divergence is confined to quotients out of range.
\<close>

lemma inverse_rescale_in_range:
  assumes "0 \<le> q" and "q < 65536"
  shows "uint (astype_uint16 (Fin q)) = max 0 (min 65535 (trunc q))"
proof -
  have t: "trunc q = \<lfloor>q\<rfloor>" using assms(1) by (rule trunc_nonneg)
  have lo: "0 \<le> \<lfloor>q\<rfloor>" using assms(1) by simp
  have hi: "\<lfloor>q\<rfloor> < 65536" using assms(2) by (simp add: floor_less_iff)
  have "uint (astype_uint16 (Fin q)) = trunc q"
    using lo hi by (intro astype_uint16_in_range) (simp_all add: t)
  then show ?thesis using lo hi by (simp add: t)
qed

lemma inverse_rescale_zero_slope:
  "to_u16_data (Float32 a) True (Fin 0) offset = Inl ValueError \<and>
   toStored_spec x 0 offset' = Inl ValueError"
  by (simp add: to_u16_data_def toStored_spec_def is_zero_def)

text \<open>
  C3, as stated, fails: a uint16 array is written even with \<open>rescale = True\<close> and a zero
  slope, and the file appears.
\<close>

theorem zero_slope_uint16_counterexample:
  "fst (write_xre_tif Map.empty ''a.tif'' (UInt16 sample_grid) True (Fin 0) (Fin 0)) = Inr () \<and>
   snd (write_xre_tif Map.empty ''a.tif'' (UInt16 sample_grid) True (Fin 0) (Fin 0)) ''a.tif''
     \<noteq> None"
  by (simp add: write_xre_tif_def to_u16_data_def)

text \<open>
  C3, amended. For every array whose dtype is not uint16, a write with
  \<open>rescale = True\<close> and a slope that is zero, of either sign (any offset), fails with the
  invalid-calibration error \<^verbatim>\<open>ValueError\<close>, and the file system is the one before
  the call.
\<close>

theorem zero_slope_rejected:
  "write_xre_tif fs path (Float32 a) True (Fin 0) offset = (Inl ValueError, fs) \<and>
   write_xre_tif fs path (Float64 a) True (Fin 0) offset = (Inl ValueError, fs) \<and>
   write_xre_tif fs path (Float32 a) True NZero offset = (Inl ValueError, fs) \<and>
   write_xre_tif fs path (Float64 a) True NZero offset = (Inl ValueError, fs)"
  by (simp add: write_xre_tif_def to_u16_data_def is_zero_def)

text \<open>
  C4. With \<open>rescale = False\<close> a uint16 array is stored as it is; any other array is
  stored element by element as the truncation toward zero of the value clamped into
  \<open>[0, 65535]\<close>, whatever slope and offset are passed; \<open>-10\<close> and \<open>70000\<close> store as
  0 and 65535. (An infinity is clamped like a number; a NaN is not a number to clamp and
  is cast to 0.)
\<close>

theorem store_policy_no_rescale:
  "to_u16_data (UInt16 a) False slope offset = Inr a \<and>
   to_u16_data (Float32 b) False slope offset
     = Inr (map_ndarray (\<lambda>x. astype_uint16 (clip x)) b) \<and>
   to_u16_data (Float64 b) False slope offset
     = Inr (map_ndarray (\<lambda>x. astype_uint16 (clip x)) b) \<and>
   uint (astype_uint16 (clip (Fin x))) = trunc (min (max x 0) 65535) \<and>
   astype_uint16 (clip NZero) = 0 \<and> astype_uint16 (clip PInf) = 65535 \<and>
   astype_uint16 (clip NInf) = 0 \<and> astype_uint16 (clip NaN) = 0 \<and>
   write_xre_tif fs path (Float32 b) False slope offset
     = (Inr (), fs(path \<mapsto> save (fromarray (map_ndarray (\<lambda>x. astype_uint16 (clip x)) b))
                              (format_description slope offset) ''py_xre_tiff'')) \<and>
   write_xre_tif fs path (Float64 b) False slope offset
     = (Inr (), fs(path \<mapsto> save (fromarray (map_ndarray (\<lambda>x. astype_uint16 (clip x)) b))
                              (format_description slope offset) ''py_xre_tiff'')) \<and>
   to_u16_data (Float32 \<lparr>nrows = 1, ncols = 2, flat = [Fin (- 10), Fin 70000]\<rparr>) False
     slope offset = Inr \<lparr>nrows = 1, ncols = 2, flat = [0, 65535]\<rparr>"
proof -
  have f: "to_u16_data (Float32 b) False slope offset
             = Inr (map_ndarray (\<lambda>x. astype_uint16 (clip x)) b)"
    by (simp add: to_u16_data_def)
  have g: "to_u16_data (Float64 b) False slope offset
             = Inr (map_ndarray (\<lambda>x. astype_uint16 (clip x)) b)"
    by (simp add: to_u16_data_def)
  have n: "astype_uint16 (clip NZero) = 0 \<and> astype_uint16 (clip PInf) = 65535 \<and>
           astype_uint16 (clip NInf) = 0 \<and> astype_uint16 (clip NaN) = 0"
    by (simp add: clip_def astype_uint16_def trunc_def)
  have e: "to_u16_data (Float32 \<lparr>nrows = 1, ncols = 2, flat = [Fin (- 10), Fin 70000]\<rparr>) False
             slope offset = Inr \<lparr>nrows = 1, ncols = 2, flat = [0, 65535]\<rparr>"
    by (simp add: cast_eval)
  show ?thesis
    using f g n e write_ok [OF f] write_ok [OF g] astype_uint16_clip [of x]
    by (simp add: to_u16_data_def)
qed

section \<open>Properties of the calibration text\<close>

subsection \<open>The characters of a formatted number\<close>

lemma is_digit_digit_char: "is_digit (digit_char d)"
proof -
  have "d mod 10 < length ''0123456789''" by simp
  then have "''0123456789'' ! (d mod 10) \<in> set ''0123456789''" by (rule nth_mem)
  then show ?thesis by (simp only: is_digit_def digit_char_def)
qed

lemma pad_digits: "list_all is_digit (pad n k)"
  by (simp add: pad_def list_all_iff is_digit_digit_char)

lemma length_pad: "length (pad n k) = n"
  by (simp add: pad_def)

lemma digit_number_char: "is_digit c \<Longrightarrow> number_char c"
  by (simp add: number_char_def)

lemma pad_number_chars: "list_all number_char (pad n k)"
  using pad_digits [of n k] by (simp add: list_all_iff digit_number_char)

lemma format_exp_number_chars: "list_all number_char (format_exp e)"
  by (simp add: format_exp_def pad_number_chars) (simp add: number_char_def)

lemma sci_6E_number_chars: "list_all number_char (sci_6E x)"
  by (simp add: sci_6E_def pad_number_chars format_exp_number_chars split: prod.splits)
     (simp add: number_char_def)

lemma sci_6E_nonempty: "sci_6E x \<noteq> []"
  by (simp add: sci_6E_def split: prod.splits)

lemma number_char_not_space: "number_char c \<Longrightarrow> \<not> is_space c"
  by (auto simp add: number_char_def is_digit_def is_space_def)

lemma number_char_lower_not_o: "number_char c \<Longrightarrow> lower c \<noteq> CHR ''o''"
  by (auto simp add: number_char_def is_digit_def lower_def)

text \<open>
  The shape of \<open>sci_6E x\<close>: an optional minus sign, one digit, a point, six digits,
  \<open>E\<close>, a sign, and at least two digits.
\<close>

lemma sci_6E_shape:
  "\<exists>sg d fr es ed.
     sci_6E x = sg @ [d] @ ''.'' @ fr @ ''E'' @ [es] @ ed \<and> (sg = [] \<or> sg = ''-'') \<and>
     is_digit d \<and> length fr = 6 \<and> list_all is_digit fr \<and>
     (es = CHR ''+'' \<or> es = CHR ''-'') \<and> 2 \<le> length ed \<and> list_all is_digit ed"
proof -
  obtain m e where me: "(if x = 0 then (0, 0) else sci7 x) = (m, e)"
    by (cases "if x = 0 then (0, 0) else sci7 x") blast
  let ?sg = "if x < 0 then ''-'' else []"
  let ?d = "digit_char (m div 10 ^ 6)"
  let ?fr = "pad 6 (m mod 10 ^ 6)"
  let ?es = "if e < 0 then CHR ''-'' else CHR ''+''"
  let ?ed = "pad (max 2 (Suc (ilog10 (nat \<bar>e\<bar>)))) (nat \<bar>e\<bar>)"
  have "sci_6E x = ?sg @ [?d] @ ''.'' @ ?fr @ ''E'' @ [?es] @ ?ed"
    by (simp add: sci_6E_def me format_exp_def) (simp add: pad_def)
  moreover have "is_digit ?d \<and> length ?fr = 6 \<and> list_all is_digit ?fr \<and>
                 2 \<le> length ?ed \<and> list_all is_digit ?ed"
    using pad_digits by (simp add: is_digit_digit_char length_pad)
  moreover have "(?sg = [] \<or> ?sg = ''-'') \<and> (?es = CHR ''+'' \<or> ?es = CHR ''-'')"
    by simp
  ultimately show ?thesis by blast
qed

subsection \<open>The digits of a formatted number\<close>

lemma pow10_powi: "pow10 e = 10 powi e"
  by (simp add: pow10_def power_int_def inverse_eq_divide power_one_over)

lemma pow10_pos: "0 < pow10 e"
  by (simp add: pow10_def)

lemma pow10_add: "pow10 (a + b) = pow10 a * pow10 b"
  by (simp add: pow10_powi power_int_add)

lemma pow10_nat: "pow10 (int n) = 10 ^ n"
  by (simp add: pow10_def)

lemma pow10_neg_nat: "pow10 (- int n) = 1 / 10 ^ n"
  by (simp add: pow10_powi power_int_minus inverse_eq_divide)

lemma pow10_shift: "pow10 (e + int n) = 10 ^ n * pow10 e"
  using pow10_add [of e "int n"] by (simp add: pow10_nat mult.commute)

lemma ilog10_bounds: "0 < k \<Longrightarrow> 10 ^ ilog10 k \<le> k \<and> k < 10 ^ Suc (ilog10 k)"
proof (induction k rule: ilog10.induct)
  case (1 k)
  show ?case
  proof (cases "k < 10")
    case True
    with "1.prems" show ?thesis by (simp add: ilog10.simps [of k])
  next
    case False
    then have pos: "0 < k div 10" by (simp add: div_greater_zero_iff)
    from "1.IH" [OF False pos]
    have lo: "10 ^ ilog10 (k div 10) \<le> k div 10" and hi: "k div 10 < 10 ^ Suc (ilog10 (k div 10))"
      by simp_all
    have eq: "ilog10 k = Suc (ilog10 (k div 10))"
      using False by (simp add: ilog10.simps [of k])
    have "10 * 10 ^ ilog10 (k div 10) \<le> 10 * (k div 10)" using lo by simp
    also have "\<dots> \<le> k" by simp
    finally have a: "10 ^ ilog10 k \<le> k" by (simp add: eq)
    have "k < 10 * (k div 10 + 1)" by presburger
    also have "\<dots> \<le> 10 * 10 ^ Suc (ilog10 (k div 10))" using hi by simp
    finally have b: "k < 10 ^ Suc (ilog10 k)" by (simp add: eq)
    from a b show ?thesis ..
  qed
qed

lemma exponent10_bounds:
  assumes "x \<noteq> 0"
  shows "pow10 (exponent10 x) \<le> \<bar>x\<bar> \<and> \<bar>x\<bar> < pow10 (exponent10 x + 1)"
proof (cases "1 \<le> \<bar>x\<bar>")
  case True
  define n where "n = nat \<lfloor>\<bar>x\<bar>\<rfloor>"
  have f1: "1 \<le> \<lfloor>\<bar>x\<bar>\<rfloor>" using True by simp
  then have n: "0 < n" by (simp add: n_def)
  have nx: "of_nat n \<le> \<bar>x\<bar>" "\<bar>x\<bar> < of_nat n + 1"
    using f1 by (simp_all add: n_def) linarith+
  have e: "exponent10 x = int (ilog10 n)"
    using True by (simp add: exponent10_def n_def)
  from ilog10_bounds [OF n] have lo: "10 ^ ilog10 n \<le> n" and hi: "n + 1 \<le> 10 ^ Suc (ilog10 n)"
    by simp_all
  have "(10::rat) ^ ilog10 n \<le> of_nat n"
    using lo by (metis of_nat_le_iff of_nat_numeral of_nat_power)
  then have "(10::rat) ^ ilog10 n \<le> \<bar>x\<bar>"
    using nx(1) by (rule order_trans)
  then have a: "pow10 (exponent10 x) \<le> \<bar>x\<bar>"
    by (simp only: e pow10_nat)
  have "of_nat (n + 1) \<le> (10::rat) ^ Suc (ilog10 n)"
    using hi by (metis of_nat_le_iff of_nat_numeral of_nat_power)
  then have "\<bar>x\<bar> < 10 ^ Suc (ilog10 n)" using nx(2) by simp
  moreover have "pow10 (exponent10 x + 1) = 10 ^ Suc (ilog10 n)"
    using pow10_nat [of "Suc (ilog10 n)"] by (simp add: e add.commute)
  ultimately show ?thesis using a by simp
next
  case False
  define y where "y = 1 / \<bar>x\<bar>"
  define c where "c = nat \<lceil>y\<rceil>"
  define k where "k = ilog10 (c - 1)"
  have xpos: "0 < \<bar>x\<bar>" using assms by simp
  have y1: "1 < y" using False xpos by (simp add: y_def)
  then have ce: "2 \<le> \<lceil>y\<rceil>" by linarith
  have c2: "2 \<le> c" unfolding c_def using ce by linarith
  have cc: "int c = \<lceil>y\<rceil>" unfolding c_def using ce by linarith
  have yc: "of_nat c - 1 < y" "y \<le> of_nat c"
  proof -
    have "of_int \<lceil>y\<rceil> - 1 < y" "y \<le> of_int \<lceil>y\<rceil>" by linarith+
    then show "of_nat c - 1 < y" "y \<le> of_nat c"
      using cc by (metis of_int_of_nat_eq)+
  qed
  have e: "exponent10 x = - int (Suc k)"
    using False by (simp add: exponent10_def k_def c_def y_def)
  from c2 have "0 < c - 1" by simp
  from ilog10_bounds [OF this]
  have lo: "10 ^ k \<le> c - 1" and hi': "c - 1 < 10 ^ Suc k"
    unfolding k_def by blast+
  from hi' have hi: "c \<le> 10 ^ Suc k" by linarith
  have "of_nat (10 ^ k) \<le> (of_nat (c - 1) :: rat)" using lo by (simp only: of_nat_le_iff)
  then have "(10::rat) ^ k \<le> of_nat c - 1" using c2 by (simp add: of_nat_diff)
  then have ylo: "10 ^ k < y" using yc(1) by simp
  have "(of_nat c :: rat) \<le> of_nat (10 ^ Suc k)" using hi by (simp only: of_nat_le_iff)
  then have yhi: "y \<le> 10 ^ Suc k" using yc(2) by simp
  have xy: "\<bar>x\<bar> = 1 / y" using xpos by (simp add: y_def)
  have ypos: "0 < y" using y1 by simp
  have a: "1 / 10 ^ Suc k \<le> \<bar>x\<bar>"
    unfolding xy using yhi ypos by (simp add: frac_le)
  have b: "\<bar>x\<bar> < 1 / 10 ^ k"
    unfolding xy using ylo by (simp add: frac_less2)
  have p1: "pow10 (exponent10 x) = 1 / 10 ^ Suc k"
    unfolding e by (rule pow10_neg_nat)
  have "exponent10 x + 1 = - int k" by (simp add: e)
  then have p2: "pow10 (exponent10 x + 1) = 1 / 10 ^ k"
    by (simp only: pow10_neg_nat)
  show ?thesis using a b by (simp only: p1 p2)
qed

lemma round_half_even_near:
  assumes "0 \<le> y"
  shows "\<bar>of_nat (round_half_even y) - y\<bar> \<le> 1 / 2"
proof -
  define f where "f = \<lfloor>y\<rfloor>"
  define z where "z = (if y - of_int f < 1 / 2 then f else if 1 / 2 < y - of_int f then f + 1
                       else if even f then f else f + 1)"
  have f0: "0 \<le> f" using assms by (simp add: f_def)
  have fy: "of_int f \<le> y" "y < of_int f + 1" unfolding f_def by linarith+
  have z0: "0 \<le> z" using f0 by (simp add: z_def)
  have r: "round_half_even y = nat z"
    by (simp add: round_half_even_def Let_def f_def z_def)
  have "\<bar>of_int z - y\<bar> \<le> 1 / 2"
    using fy by (auto simp add: z_def)
  moreover have "(of_nat (nat z) :: rat) = of_int z"
    using z0 by (metis of_int_of_nat_eq nat_0_le)
  ultimately show ?thesis by (simp add: r)
qed

lemma round_half_even_bounds:
  assumes "of_nat lo \<le> y" and "y < of_nat hi"
  shows "lo \<le> round_half_even y \<and> round_half_even y \<le> hi"
proof -
  define f where "f = \<lfloor>y\<rfloor>"
  define z where "z = (if y - of_int f < 1 / 2 then f else if 1 / 2 < y - of_int f then f + 1
                       else if even f then f else f + 1)"
  have r: "round_half_even y = nat z"
    by (simp add: round_half_even_def Let_def f_def z_def)
  have "of_int (int lo) \<le> y" using assms(1) by simp
  then have a: "int lo \<le> f" unfolding f_def by (simp only: le_floor_iff)
  have "y < of_int (int hi)" using assms(2) by simp
  then have b: "f < int hi" unfolding f_def by (simp only: floor_less_iff)
  have "f \<le> z \<and> z \<le> f + 1" by (simp add: z_def)
  then have "int lo \<le> z \<and> z \<le> int hi" using a b by linarith
  then show ?thesis unfolding r by linarith
qed

lemma sci7_bounds:
  assumes "x \<noteq> 0" and "sci7 x = (m, e)"
  shows "10 ^ 6 \<le> m \<and> m < 10 ^ 7 \<and>
         \<bar>\<bar>x\<bar> - of_nat m * pow10 (e - 6)\<bar> \<le> pow10 (e - 6) / 2"
proof -
  define e0 where "e0 = exponent10 x"
  define s where "s = pow10 (e0 - 6)"
  define y where "y = \<bar>x\<bar> / s"
  define r where "r = round_half_even y"
  have spos: "0 < s" by (simp add: s_def pow10_pos)
  have p6: "pow10 e0 = 10 ^ 6 * s"
    using pow10_shift [of "e0 - 6" 6] by (simp add: s_def)
  have p7: "pow10 (e0 + 1) = 10 ^ 7 * s"
    using pow10_shift [of "e0 - 6" 7] by (simp add: s_def add.commute)
  have p5: "pow10 (e0 - 5) = 10 * s"
    using pow10_shift [of "e0 - 6" 1] by (simp add: s_def)
  from exponent10_bounds [OF assms(1)]
  have "10 ^ 6 * s \<le> \<bar>x\<bar>" and "\<bar>x\<bar> < 10 ^ 7 * s"
    by (simp_all add: e0_def [symmetric] p6 p7)
  then have ylo: "10 ^ 6 \<le> y" and yhi: "y < 10 ^ 7"
    using spos by (simp_all add: y_def pos_le_divide_eq pos_divide_less_eq)
  have ypos: "0 \<le> y" using ylo by simp
  have "of_nat (10 ^ 6) \<le> y" "y < of_nat (10 ^ 7)" using ylo yhi by simp_all
  from round_half_even_bounds [OF this]
  have rlo: "10 ^ 6 \<le> r" and rhi: "r \<le> 10 ^ 7" by (simp_all add: r_def)
  have "\<bar>of_nat r - y\<bar> \<le> 1 / 2"
    unfolding r_def using ypos by (rule round_half_even_near)
  then have "\<bar>of_nat r - y\<bar> * s \<le> 1 / 2 * s"
    using spos by (simp only: mult_le_cancel_right_pos)
  moreover have "\<bar>of_nat r - y\<bar> * s = \<bar>\<bar>x\<bar> - of_nat r * s\<bar>"
  proof -
    have "y * s = \<bar>x\<bar>" using spos by (simp add: y_def)
    then have "(of_nat r - y) * s = of_nat r * s - \<bar>x\<bar>" by (simp add: algebra_simps)
    then have "\<bar>of_nat r - y\<bar> * \<bar>s\<bar> = \<bar>of_nat r * s - \<bar>x\<bar>\<bar>" by (simp only: abs_mult [symmetric])
    then show ?thesis using spos by (simp add: abs_minus_commute)
  qed
  ultimately have near: "\<bar>\<bar>x\<bar> - of_nat r * s\<bar> \<le> s / 2" by simp
  have sci: "sci7 x = (if r = 10 ^ 7 then (10 ^ 6, e0 + 1) else (r, e0))"
    by (simp add: sci7_def Let_def e0_def r_def y_def s_def)
  show ?thesis
  proof (cases "r = 10 ^ 7")
    case True
    with assms(2) sci have me: "m = 10 ^ 6" "e = e0 + 1" by simp_all
    have "of_nat m * pow10 (e - 6) = of_nat r * s"
      by (simp add: me p5 True)
    moreover have "s / 2 \<le> pow10 (e - 6) / 2"
      using spos by (simp add: me p5)
    ultimately show ?thesis using near by (simp add: me)
  next
    case False
    with assms(2) sci have me: "m = r" "e = e0" by simp_all
    have "r < 10 ^ 7" using rhi False by simp
    then show ?thesis using near rlo by (simp add: me s_def)
  qed
qed

subsection \<open>The digits, as numbers\<close>

lemma foldl_shift:
  "foldl (\<lambda>a d. 10 * a + d) a ds
     = a * 10 ^ length ds + foldl (\<lambda>a d. 10 * a + d) (0::nat) ds"
proof (induction ds arbitrary: a)
  case Nil
  show ?case by simp
next
  case (Cons d ds)
  let ?f = "\<lambda>a d. 10 * a + (d :: nat)"
  have "foldl ?f a (d # ds) = foldl ?f (10 * a + d) ds" by simp
  also have "\<dots> = (10 * a + d) * 10 ^ length ds + foldl ?f 0 ds" by (rule Cons.IH)
  also have "\<dots> = a * 10 ^ length (d # ds) + (d * 10 ^ length ds + foldl ?f 0 ds)"
    by (simp add: algebra_simps)
  also have "d * 10 ^ length ds + foldl ?f 0 ds = foldl ?f d ds" by (rule Cons.IH [symmetric])
  also have "foldl ?f d ds = foldl ?f 0 (d # ds)" by simp
  finally show ?case .
qed

lemma pad_map:
  "pad n k = map ((!) ''0123456789'') (map (\<lambda>i. k div 10 ^ i mod 10) (rev [0..<n]))"
  by (simp add: pad_def digit_char_def)

lemma foldl_place_digits:
  "foldl (\<lambda>a d. 10 * a + d) 0 (map (\<lambda>i. k div 10 ^ i mod 10) (rev [0..<n]))
     = (k::nat) mod 10 ^ n"
proof (induction n)
  case 0
  show ?case by simp
next
  case (Suc n)
  let ?f = "\<lambda>a d. 10 * a + (d :: nat)"
  let ?ds = "map (\<lambda>i. k div 10 ^ i mod 10) (rev [0..<n])"
  have "foldl ?f 0 (map (\<lambda>i. k div 10 ^ i mod 10) (rev [0..<Suc n]))
          = foldl ?f (k div 10 ^ n mod 10) ?ds"
    by simp
  also have "\<dots> = (k div 10 ^ n mod 10) * 10 ^ length ?ds + foldl ?f 0 ?ds"
    by (rule foldl_shift)
  also have "\<dots> = (k div 10 ^ n mod 10) * 10 ^ n + k mod 10 ^ n"
    by (simp only: Suc) simp
  also have "\<dots> = k mod 10 ^ Suc n"
    using mod_mult2_eq [of k "10 ^ n" 10] by (simp add: ac_simps)
  finally show ?case .
qed

lemma exponent_width: "k < 10 ^ max 2 (Suc (ilog10 k))"
proof (cases "k = 0")
  case True
  then show ?thesis by simp
next
  case False
  then have "k < 10 ^ Suc (ilog10 k)" using ilog10_bounds [of k] by simp
  also have "(10::nat) ^ Suc (ilog10 k) \<le> 10 ^ max 2 (Suc (ilog10 k))"
    by (rule power_increasing) simp_all
  finally show ?thesis .
qed

text \<open>
  The text of a number, digit by digit: a minus sign for a negative number, one digit, a
  point, six digits, \<open>E\<close>, the sign of the exponent and at least two digits. Zero is all
  zeros; otherwise the first digit is not 0 and the seven digits, scaled by the exponent,
  are within half a unit of the last digit of the number's absolute value.
\<close>

lemma sci_6E_digits:
  "\<exists>d fr es neg.
     sci_6E x = (if x < 0 then ''-'' else []) @ [''0123456789'' ! d] @ ''.'' @
                map ((!) ''0123456789'') fr @ ''E'' @ [if neg then CHR ''-'' else CHR ''+''] @
                map ((!) ''0123456789'') es \<and>
     d < 10 \<and> length fr = 6 \<and> list_all (\<lambda>k. k < 10) fr \<and>
     2 \<le> length es \<and> list_all (\<lambda>k. k < 10) es \<and>
     (if x = 0 then d = 0 \<and> foldl (\<lambda>a k. 10 * a + k) 0 fr = 0 \<and>
                    foldl (\<lambda>a k. 10 * a + k) 0 es = 0 \<and> \<not> neg
      else 1 \<le> d \<and>
           \<bar>\<bar>x\<bar> - of_nat (d * 10 ^ 6 + foldl (\<lambda>a k. 10 * a + k) 0 fr) *
                  10 powi ((if neg then - 1 else 1) * int (foldl (\<lambda>a k. 10 * a + k) 0 es) - 6)\<bar>
             \<le> 10 powi ((if neg then - 1 else 1) * int (foldl (\<lambda>a k. 10 * a + k) 0 es) - 6) / 2)"
proof -
  obtain m e where me: "(if x = 0 then (0, 0) else sci7 x) = (m, e)"
    by (cases "if x = 0 then (0, 0) else sci7 x") blast
  define w where "w = max 2 (Suc (ilog10 (nat \<bar>e\<bar>)))"
  define d where "d = m div 10 ^ 6 mod 10"
  define fr where "fr = map (\<lambda>i. (m mod 10 ^ 6) div 10 ^ i mod 10) (rev [0..<6])"
  define es where "es = map (\<lambda>i. nat \<bar>e\<bar> div 10 ^ i mod 10) (rev [0..<w])"
  let ?V = "foldl (\<lambda>a k. 10 * a + k) (0::nat)"
  have p1: "pad 1 (m div 10 ^ 6) = [''0123456789'' ! d]"
    by (simp add: pad_def digit_char_def d_def)
  have p6: "pad 6 (m mod 10 ^ 6) = map ((!) ''0123456789'') fr"
    unfolding fr_def by (rule pad_map)
  have pe: "format_exp e = [if e < 0 then CHR ''-'' else CHR ''+''] @ map ((!) ''0123456789'') es"
    unfolding es_def w_def by (simp add: format_exp_def pad_map)
  have raw: "sci_6E x = (if x < 0 then ''-'' else []) @ pad 1 (m div 10 ^ 6) @ ''.'' @
                pad 6 (m mod 10 ^ 6) @ ''E'' @ format_exp e"
    by (simp add: sci_6E_def me)
  have tx: "sci_6E x = (if x < 0 then ''-'' else []) @ [''0123456789'' ! d] @ ''.'' @
                map ((!) ''0123456789'') fr @ ''E'' @ [if e < 0 then CHR ''-'' else CHR ''+''] @
                map ((!) ''0123456789'') es"
    unfolding raw p1 p6 pe by simp
  have sh: "d < 10 \<and> length fr = 6 \<and> list_all (\<lambda>k. k < 10) fr \<and>
            2 \<le> length es \<and> list_all (\<lambda>k. k < 10) es"
    by (simp add: d_def fr_def es_def w_def list_all_iff)
  have vf: "?V fr = m mod 10 ^ 6"
    unfolding fr_def by (simp only: foldl_place_digits) simp
  have "nat \<bar>e\<bar> < 10 ^ w" unfolding w_def by (rule exponent_width)
  then have ve: "?V es = nat \<bar>e\<bar>"
    unfolding es_def by (simp only: foldl_place_digits) simp
  have ee: "(if e < 0 then - 1 else 1) * int (?V es) = e"
    by (simp add: ve)
  have num: "if x = 0 then d = 0 \<and> ?V fr = 0 \<and> ?V es = 0 \<and> \<not> e < 0
      else 1 \<le> d \<and>
           \<bar>\<bar>x\<bar> - of_nat (d * 10 ^ 6 + ?V fr) *
                  10 powi ((if e < 0 then - 1 else 1) * int (?V es) - 6)\<bar>
             \<le> 10 powi ((if e < 0 then - 1 else 1) * int (?V es) - 6) / 2"
  proof (cases "x = 0")
    case True
    with me have "m = 0" "e = 0" by simp_all
    then show ?thesis using True by (simp add: d_def vf ve)
  next
    case False
    with me have s: "sci7 x = (m, e)" by simp
    from sci7_bounds [OF False s]
    have m: "10 ^ 6 \<le> m" "m < 10 ^ 7"
      and b: "\<bar>\<bar>x\<bar> - of_nat m * pow10 (e - 6)\<bar> \<le> pow10 (e - 6) / 2"
      by simp_all
    have dd: "d = m div 10 ^ 6"
      unfolding d_def using m(2) by (simp add: less_mult_imp_div_less)
    have d1: "1 \<le> d" unfolding dd using m(1) by (simp add: div_greater_zero_iff Suc_le_eq)
    have mm: "d * 10 ^ 6 + ?V fr = m" by (simp add: dd vf)
    show ?thesis
      using False d1 b unfolding mm ee pow10_powi by simp
  qed
  show ?thesis
    using tx sh num by blast
qed

subsection \<open>Searching the description\<close>

lemma takeWhile_run:
  assumes "list_all P xs" and "rest = [] \<or> \<not> P (hd rest)"
  shows "takeWhile P (xs @ rest) = xs"
  using assms by (induction xs) (auto simp add: takeWhile_eq_Nil_iff)

lemma dropWhile_space_run:
  assumes "list_all number_char xs" and "xs \<noteq> []"
  shows "dropWhile is_space (xs @ rest) = xs @ rest"
  using assms by (cases xs) (simp_all add: number_char_not_space)

lemma match_at_mismatch:
  assumes "kw \<noteq> []" and "lower c \<noteq> hd kw"
  shows "match_at kw (c # cs) = None"
  using assms by (cases kw) (auto simp add: match_at_def)

lemma re_search_skip:
  assumes "kw \<noteq> []" and "\<forall>c \<in> set pre. lower c \<noteq> hd kw"
  shows "re_search kw (pre @ rest) = re_search kw rest"
  using assms by (induction pre) (simp_all add: match_at_mismatch)

lemma match_at_field:
  assumes "list_all number_char g" and "g \<noteq> []" and "rest = [] \<or> \<not> number_char (hd rest)"
    and "map lower kw' = kw"
  shows "match_at kw (kw' @ '' = '' @ g @ rest) = Some g"
proof -
  have "length kw = length kw'" using assms(4) by auto
  then have "match_at kw (kw' @ '' = '' @ g @ rest) =
              (let g' = takeWhile number_char (dropWhile is_space (CHR '' '' # g @ rest))
               in if g' = [] then None else Some g')"
    using assms(4) by (simp add: match_at_def is_space_def)
  also have "dropWhile is_space (CHR '' '' # g @ rest) = g @ rest"
    using assms(1,2) by (simp add: is_space_def dropWhile_space_run)
  also have "takeWhile number_char (g @ rest) = g"
    using assms(1,3) by (rule takeWhile_run)
  finally show ?thesis using assms(2) by simp
qed

lemma search_slope:
  assumes "list_all number_char g" and "g \<noteq> []" and "rest = [] \<or> \<not> number_char (hd rest)"
  shows "re_search ''slope'' (''slope = '' @ g @ rest) = Some g"
proof -
  have "match_at ''slope'' (''slope'' @ '' = '' @ g @ rest) = Some g"
    using assms by (intro match_at_field) (simp_all add: lower_def)
  then show ?thesis by simp
qed

lemma search_offset:
  assumes "list_all number_char f" and "list_all number_char g" and "g \<noteq> []"
  shows "re_search ''offset'' (''slope = '' @ f @ '' offset = '' @ g) = Some g"
proof -
  have m: "match_at ''offset'' (''offset'' @ '' = '' @ g @ []) = Some g"
    using assms by (intro match_at_field) (simp_all add: lower_def)
  have "re_search ''offset'' (''slope = '' @ f @ '' offset = '' @ g)
          = re_search ''offset'' (f @ '' offset = '' @ g)"
    by (simp add: match_at_def lower_def)
  also have "\<dots> = re_search ''offset'' ('' offset = '' @ g)"
    using assms(1) by (intro re_search_skip) (auto simp add: list_all_iff number_char_lower_not_o)
  also have "\<dots> = Some g"
    using m by (simp add: match_at_mismatch lower_def)
  finally show ?thesis .
qed

subsection \<open>Reading a formatted number back\<close>

lemma dropWhile_run:
  assumes "list_all P xs" and "rest = [] \<or> \<not> P (hd rest)"
  shows "dropWhile P (xs @ rest) = rest"
  using assms by (induction xs) (auto simp add: dropWhile_eq_self_iff)

lemma digit_char_value: "of_char (digit_char d) - 48 = d mod 10"
proof -
  define j where "j = d mod 10"
  have "j < 10" by (simp add: j_def)
  then have "j = 0 \<or> j = 1 \<or> j = 2 \<or> j = 3 \<or> j = 4 \<or> j = 5 \<or> j = 6 \<or> j = 7 \<or> j = 8 \<or> j = 9"
    by presburger
  then have "of_char (''0123456789'' ! j) - 48 = j"
    by (elim disjE) simp_all
  then show ?thesis by (simp add: digit_char_def j_def)
qed
lemma foldl_digits:
  "foldl (\<lambda>a c. 10 * a + (of_char c - 48)) a cs
     = a * 10 ^ length cs + foldl (\<lambda>a c. 10 * a + (of_char c - 48)) (0::nat) cs"
proof (induction cs arbitrary: a)
  case Nil
  show ?case by simp
next
  case (Cons c cs)
  let ?f = "\<lambda>a c. 10 * a + (of_char c - 48 :: nat)"
  let ?v = "of_char c - 48 :: nat"
  have "foldl ?f a (c # cs) = foldl ?f (10 * a + ?v) cs" by simp
  also have "\<dots> = (10 * a + ?v) * 10 ^ length cs + foldl ?f 0 cs" by (rule Cons.IH)
  also have "\<dots> = a * 10 ^ length (c # cs) + (?v * 10 ^ length cs + foldl ?f 0 cs)"
    by (simp add: algebra_simps)
  also have "?v * 10 ^ length cs + foldl ?f 0 cs = foldl ?f ?v cs" by (rule Cons.IH [symmetric])
  also have "foldl ?f ?v cs = foldl ?f 0 (c # cs)" by simp
  finally show ?case .
qed

lemma digits_value_Cons:
  "digits_value (c # cs) = (of_char c - 48) * 10 ^ length cs + digits_value cs"
  using foldl_digits [of "of_char c - 48" cs] by (simp add: digits_value_def)

lemma digits_value_append:
  "digits_value (xs @ ys) = digits_value xs * 10 ^ length ys + digits_value ys"
proof (induction xs)
  case Nil
  show ?case by (simp add: digits_value_def)
next
  case (Cons c xs)
  show ?case
    by (simp add: digits_value_Cons Cons algebra_simps power_add)
qed

lemma pad_Suc: "pad (Suc n) k = digit_char (k div 10 ^ n) # pad n k"
  by (simp add: pad_def)

lemma digits_value_pad: "digits_value (pad n k) = k mod 10 ^ n"
proof (induction n)
  case 0
  show ?case by (simp add: pad_def digits_value_def)
next
  case (Suc n)
  have "digits_value (pad (Suc n) k) = (k div 10 ^ n mod 10) * 10 ^ n + k mod 10 ^ n"
    by (simp add: pad_Suc digits_value_Cons digit_char_value Suc length_pad)
  also have "\<dots> = k mod 10 ^ Suc n"
    using mod_mult2_eq [of k "10 ^ n" 10] by (simp add: ac_simps)
  finally show ?case .
qed

lemma digit_not_sign: "is_digit c \<Longrightarrow> c \<noteq> CHR ''-'' \<and> c \<noteq> CHR ''+'' \<and> c \<noteq> CHR ''.''"
  by (auto simp add: is_digit_def)

lemma split_sign_digits:
  assumes "list_all is_digit ip" and "ip \<noteq> []"
  shows "split_sign (ip @ r) = (False, ip @ r)" and "split_sign (''-'' @ ip @ r) = (True, ip @ r)"
  using assms by (cases ip; simp add: split_sign_def digit_not_sign)+

lemma decimal_of_string_sci:
  assumes ip: "list_all is_digit ip" "ip \<noteq> []" and fp: "list_all is_digit fp"
    and ed: "list_all is_digit ed" "ed \<noteq> []"
    and sg: "sg = [] \<or> sg = ''-''" and es: "es = CHR ''+'' \<or> es = CHR ''-''"
  shows "decimal_of_string (sg @ ip @ CHR ''.'' # fp @ CHR ''E'' # es # ed) =
           Inr ((if sg = ''-'' then - 1 else 1) *
                (of_nat (digits_value (ip @ fp)) * pow10 (- int (length fp))) *
                pow10 (if es = CHR ''-'' then - int (digits_value ed) else int (digits_value ed)))"
proof -
  let ?r3 = "CHR ''E'' # es # ed"
  let ?r2 = "CHR ''.'' # fp @ ?r3"
  have s1: "split_sign (sg @ ip @ ?r2) = (sg = ''-'', ip @ ?r2)"
    using sg split_sign_digits [OF ip, of ?r2] by auto
  have t1: "takeWhile is_digit (ip @ ?r2) = ip" "dropWhile is_digit (ip @ ?r2) = ?r2"
    using ip(1) by (simp_all add: takeWhile_run dropWhile_run is_digit_def)
  have t2: "takeWhile is_digit (fp @ ?r3) = fp" "dropWhile is_digit (fp @ ?r3) = ?r3"
    using fp by (simp_all add: takeWhile_run dropWhile_run is_digit_def)
  have s2: "split_sign (es # ed) = (es = CHR ''-'', ed)"
    using es by (auto simp add: split_sign_def)
  have t3: "takeWhile is_digit ed = ed" "dropWhile is_digit ed = []"
    using ed(1) takeWhile_run [of is_digit ed "[]"] dropWhile_run [of is_digit ed "[]"]
    by simp_all
  show ?thesis
    using ip ed fp by (simp add: decimal_of_string_def s1 t1 t2 s2 t3 Let_def list_all_iff)
qed

lemma pad_exponent_value:
  "digits_value (pad (max 2 (Suc (ilog10 k))) k) = k"
proof -
  let ?n = "max 2 (Suc (ilog10 k))"
  have "k < 10 ^ ?n"
  proof (cases "k = 0")
    case True
    then show ?thesis by simp
  next
    case False
    then have "k < 10 ^ Suc (ilog10 k)" using ilog10_bounds [of k] by simp
    also have "(10::nat) ^ Suc (ilog10 k) \<le> 10 ^ ?n"
      by (rule power_increasing) simp_all
    finally show ?thesis .
  qed
  then show ?thesis by (simp add: digits_value_pad)
qed

lemma decimal_of_format_exp:
  assumes "list_all is_digit ip" "ip \<noteq> []" "list_all is_digit fp" "sg = [] \<or> sg = ''-''"
  shows "decimal_of_string (sg @ ip @ ''.'' @ fp @ ''E'' @ format_exp e) =
           Inr ((if sg = ''-'' then - 1 else 1) *
                (of_nat (digits_value (ip @ fp)) * pow10 (- int (length fp))) * pow10 e)"
proof -
  let ?ed = "pad (max 2 (Suc (ilog10 (nat \<bar>e\<bar>)))) (nat \<bar>e\<bar>)"
  let ?es = "if e < 0 then CHR ''-'' else CHR ''+''"
  have f: "format_exp e = ?es # ?ed" by (simp add: format_exp_def)
  have d: "list_all is_digit ?ed" by (rule pad_digits)
  have n: "?ed \<noteq> []"
    using length_pad [of "max 2 (Suc (ilog10 (nat \<bar>e\<bar>)))" "nat \<bar>e\<bar>"] by auto
  have v: "digits_value ?ed = nat \<bar>e\<bar>" by (rule pad_exponent_value)
  have s: "?es = CHR ''+'' \<or> ?es = CHR ''-''" by simp
  have "(if ?es = CHR ''-'' then - int (digits_value ?ed) else int (digits_value ?ed)) = e"
    unfolding v by simp
  with decimal_of_string_sci [OF assms(1,2,3) d n assms(4) s]
  show ?thesis by (simp add: f)
qed

lemma decimal_of_format: "decimal_of_string (sci_6E x) = Inr (round7 x)"
proof (cases "x = 0")
  case True
  have "decimal_of_string (sci_6E 0) = Inr 0"
    by (simp add: format_eval) (simp add: parse_eval)
  then show ?thesis using True by (simp add: round7_def)
next
  case False
  obtain m e where me: "sci7 x = (m, e)" by (cases "sci7 x")
  from sci7_bounds [OF False me] have m: "10 ^ 6 \<le> m" "m < 10 ^ 7" by simp_all
  let ?sg = "if x < 0 then ''-'' else []"
  let ?ip = "pad 1 (m div 10 ^ 6)"
  let ?fp = "pad 6 (m mod 10 ^ 6)"
  have fmt: "sci_6E x = ?sg @ ?ip @ ''.'' @ ?fp @ ''E'' @ format_exp e"
    using False by (simp add: sci_6E_def me)
  have ip: "list_all is_digit ?ip" "?ip \<noteq> []"
    using length_pad [of 1 "m div 10 ^ 6"] by (auto simp add: pad_digits)
  have fp: "list_all is_digit ?fp" by (rule pad_digits)
  have sg: "?sg = [] \<or> ?sg = ''-''" by simp
  have "digits_value (?ip @ ?fp) = (m div 10 ^ 6) mod 10 * 10 ^ 6 + m mod 10 ^ 6"
    by (simp add: digits_value_append digits_value_pad length_pad)
  also have "(m div 10 ^ 6) mod 10 = m div 10 ^ 6"
    using m(2) by (simp add: less_mult_imp_div_less)
  finally have dv: "digits_value (?ip @ ?fp) = m" by simp
  have "pow10 (- 6) * pow10 e = pow10 (e - 6)"
    using pow10_add [of "- 6" e] by simp
  then have p: "rat_of_nat m * pow10 (- 6) * pow10 e = rat_of_nat m * pow10 (e - 6)"
    by simp
  have sgn: "(if ?sg = ''-'' then - 1 else 1) = sgn x"
    using False by (simp add: sgn_if)
  from decimal_of_format_exp [OF ip fp sg, of e]
  have "decimal_of_string (sci_6E x) = Inr (sgn x * (rat_of_nat m * pow10 (- 6)) * pow10 e)"
    unfolding fmt dv sgn by (simp add: length_pad)
  then show ?thesis
    using False p by (simp add: round7_def me mult.assoc)
qed

text \<open>
  \<^verbatim>\<open>float\<close> on the text of a finite value never fails: it returns the value rounded
  to seven digits and then to binary64, and a zero with the sign the text has.
\<close>

lemma sci_6E_minus: "take (Suc 0) (sci_6E x) = ''-'' \<longleftrightarrow> x < 0"
proof -
  obtain m e where me: "(if x = 0 then (0, 0) else sci7 x) = (m, e)"
    by (cases "if x = 0 then (0, 0) else sci7 x") blast
  have "is_digit (digit_char (m div 10 ^ 6))" by (rule is_digit_digit_char)
  then have "digit_char (m div 10 ^ 6) \<noteq> CHR ''-''" by (simp add: digit_not_sign)
  then show ?thesis by (simp add: sci_6E_def me pad_def)
qed

lemma float_of_format:
  "float_of_string (format_6E (Fin x))
     = Inr (if fl64 (round7 x) = Fin 0 \<and> x < 0 then NZero else fl64 (round7 x))"
  "float_of_string (format_6E NZero) = Inr NZero"
proof -
  show "float_of_string (format_6E (Fin x))
     = Inr (if fl64 (round7 x) = Fin 0 \<and> x < 0 then NZero else fl64 (round7 x))"
    by (simp add: float_of_string_def decimal_of_format sci_6E_minus)
  have "sci_6E 0 = ''0.000000E+00''" by (simp add: format_eval)
  then have "decimal_of_string (format_6E NZero) = Inr 0"
    by (simp add: parse_eval)
  then show "float_of_string (format_6E NZero) = Inr NZero"
    by (simp add: float_of_string_def fl64_def round_to_def)
qed

lemma float_of_format_total:
  assumes "is_finite v"
  shows "\<exists>w. float_of_string (format_6E v) = Inr w"
  using assms float_of_format by (cases v) simp_all

lemma format_6E_number_chars:
  assumes "is_finite v"
  shows "list_all number_char (format_6E v)" and "format_6E v \<noteq> []"
  using assms sci_6E_number_chars sci_6E_nonempty
  by (cases v; simp add: number_char_def)+

text \<open>
  Reading back a description this module wrote, for a finite slope and offset: each
  number is found, and the pair returned is what \<^verbatim>\<open>float\<close> makes of the two texts.
\<close>

lemma extract_formatted:
  assumes "is_finite slope" and "is_finite offset"
    and "float_of_string (format_6E slope) = Inr sv"
    and "float_of_string (format_6E offset) = Inr ov"
  shows "extract_slope_offset
     \<lparr>size_wh = (0, 0), raw = [], tag_v2 = Some [270 \<mapsto> format_description slope offset]\<rparr>
   = Inr (sv, ov)"
proof -
  have s: "re_search ''slope'' (format_description slope offset) = Some (format_6E slope)"
    unfolding format_description_def
    by (rule search_slope)
       (simp_all add: format_6E_number_chars assms(1) number_char_def is_digit_def)
  have o: "re_search ''offset'' (format_description slope offset) = Some (format_6E offset)"
    unfolding format_description_def
    by (rule search_offset) (simp_all add: format_6E_number_chars assms(1,2))
  have "format_description slope offset \<noteq> []"
    by (simp add: format_description_def)
  then show ?thesis
    by (simp add: extract_slope_offset_def s o assms(3,4))
qed

text \<open>What does hold of the parser: the defaults, and the independence of the two fields.\<close>

lemma extract_defaults:
  "extract_slope_offset \<lparr>size_wh = sz, raw = bs, tag_v2 = None\<rparr> = Inr (Fin 1, Fin 0)"
  "tags 270 = None \<Longrightarrow>
     extract_slope_offset \<lparr>size_wh = sz, raw = bs, tag_v2 = Some tags\<rparr> = Inr (Fin 1, Fin 0)"
  "tags 270 = Some [] \<Longrightarrow>
     extract_slope_offset \<lparr>size_wh = sz, raw = bs, tag_v2 = Some tags\<rparr> = Inr (Fin 1, Fin 0)"
  "tags 270 = Some desc \<Longrightarrow> re_search ''slope'' desc = None \<Longrightarrow>
   re_search ''offset'' desc = None \<Longrightarrow>
     extract_slope_offset \<lparr>size_wh = sz, raw = bs, tag_v2 = Some tags\<rparr> = Inr (Fin 1, Fin 0)"
  by (simp_all add: extract_slope_offset_def)

lemma extract_independent:
  assumes "tags 270 = Some desc" and "desc \<noteq> []"
  shows "re_search ''slope'' desc = None \<Longrightarrow> re_search ''offset'' desc = Some g \<Longrightarrow>
         float_of_string g = Inr v \<Longrightarrow>
           extract_slope_offset \<lparr>size_wh = sz, raw = bs, tag_v2 = Some tags\<rparr> = Inr (Fin 1, v)"
    and "re_search ''slope'' desc = Some g \<Longrightarrow> re_search ''offset'' desc = None \<Longrightarrow>
         float_of_string g = Inr v \<Longrightarrow>
           extract_slope_offset \<lparr>size_wh = sz, raw = bs, tag_v2 = Some tags\<rparr> = Inr (v, Fin 0)"
  using assms by (simp_all add: extract_slope_offset_def)

text \<open>
  C6, at the failing input. A file whose description is \<^verbatim>\<open>slope = 0.5.\<close> (a sentence
  ending in a full stop): the slope pattern matches \<^verbatim>\<open>0.5.\<close>, \<^verbatim>\<open>float\<close> raises
  \<^verbatim>\<open>ValueError\<close> on it, and so do the parser and the rescaled read.
\<close>

theorem parse_raises_on_malformed_number:
  "re_search ''slope'' ''slope = 0.5.'' = Some ''0.5.'' \<and>
   float_of_string ''0.5.'' = Inl ValueError \<and>
   extract_slope_offset
     \<lparr>size_wh = (1, 1), raw = [7, 0], tag_v2 = Some (tags_of trailing_dot_file)\<rparr>
     = Inl ValueError \<and>
   read_xre_tif [''a.tif'' \<mapsto> trailing_dot_file] ''a.tif'' True = Inl ValueError"
proof -
  have e: "extract_slope_offset
     \<lparr>size_wh = (1, 1), raw = [7, 0], tag_v2 = Some (tags_of trailing_dot_file)\<rparr>
     = Inl ValueError"
    by (simp add: trailing_dot_file_def parse_eval)
  have "read_xre_tif [''a.tif'' \<mapsto> trailing_dot_file] ''a.tif'' True = Inl ValueError"
    by (simp add: read_xre_tif_def open_image_def np_array_def)
       (simp add: trailing_dot_file_def parse_eval)
  moreover have "re_search ''slope'' ''slope = 0.5.'' = Some ''0.5.''"
    by (simp add: parse_eval)
  moreover have "float_of_string ''0.5.'' = Inl ValueError"
    by (simp add: parse_eval)
  ultimately show ?thesis using e by simp
qed

subsection \<open>The description that is written\<close>

lemma written_description:
  assumes "fst (write_xre_tif fs path data rescale slope offset) = Inr ()"
  shows "\<exists>f. snd (write_xre_tif fs path data rescale slope offset) path = Some f \<and>
             description f
               = Some (''slope = '' @ format_6E slope @ '' offset = '' @ format_6E offset)"
proof (cases "to_u16_data data rescale slope offset")
  case (Inl e)
  with assms show ?thesis by (simp add: write_xre_tif_def)
next
  case (Inr u)
  show ?thesis
    by (simp add: write_ok [OF Inr] save_def format_description_def)
qed

lemma format_6E_digits:
  assumes "is_finite v"
  shows "\<exists>d fr es neg.
     format_6E v = (if sign_bit v then ''-'' else []) @ [''0123456789'' ! d] @ ''.'' @
                   map ((!) ''0123456789'') fr @ ''E'' @
                   [if neg then CHR ''-'' else CHR ''+''] @ map ((!) ''0123456789'') es \<and>
     d < 10 \<and> length fr = 6 \<and> list_all (\<lambda>k. k < 10) fr \<and>
     2 \<le> length es \<and> list_all (\<lambda>k. k < 10) es \<and>
     (if fp_val v = 0
      then d = 0 \<and> foldl (\<lambda>a k. 10 * a + k) 0 fr = 0 \<and>
           foldl (\<lambda>a k. 10 * a + k) 0 es = 0 \<and> \<not> neg
      else 1 \<le> d \<and>
           \<bar>\<bar>fp_val v\<bar> - of_nat (d * 10 ^ 6 + foldl (\<lambda>a k. 10 * a + k) 0 fr) *
                  10 powi ((if neg then - 1 else 1) * int (foldl (\<lambda>a k. 10 * a + k) 0 es) - 6)\<bar>
             \<le> 10 powi ((if neg then - 1 else 1) * int (foldl (\<lambda>a k. 10 * a + k) 0 es) - 6) / 2)"
proof (cases v)
  case (Fin x)
  show ?thesis
    unfolding Fin format_6E.simps sign_bit.simps fp_val.simps by (rule sci_6E_digits)
next
  case NZero
  let ?V = "foldl (\<lambda>a k. 10 * a + k) (0::nat)"
  from sci_6E_digits [of 0] have "\<exists>d fr es neg.
      sci_6E 0 = [] @ [''0123456789'' ! d] @ ''.'' @ map ((!) ''0123456789'') fr @ ''E'' @
                   [if neg then CHR ''-'' else CHR ''+''] @ map ((!) ''0123456789'') es \<and>
      (d < 10 \<and> length fr = 6 \<and> list_all (\<lambda>k. k < 10) fr \<and>
            2 \<le> length es \<and> list_all (\<lambda>k. k < 10) es) \<and>
      (d = 0 \<and> ?V fr = 0 \<and> ?V es = 0 \<and> \<not> neg)"
    by (simp only: less_irrefl if_False simp_thms if_True) blast
  then obtain d fr es neg where
    a: "sci_6E 0 = [] @ [''0123456789'' ! d] @ ''.'' @ map ((!) ''0123456789'') fr @ ''E'' @
                   [if neg then CHR ''-'' else CHR ''+''] @ map ((!) ''0123456789'') es"
    and b: "d < 10 \<and> length fr = 6 \<and> list_all (\<lambda>k. k < 10) fr \<and>
            2 \<le> length es \<and> list_all (\<lambda>k. k < 10) es"
    and c: "d = 0 \<and> ?V fr = 0 \<and> ?V es = 0 \<and> \<not> neg"
    by blast
  have "format_6E NZero = (if sign_bit NZero then ''-'' else []) @ [''0123456789'' ! d] @ ''.'' @
                   map ((!) ''0123456789'') fr @ ''E'' @
                   [if neg then CHR ''-'' else CHR ''+''] @ map ((!) ''0123456789'') es"
    by (simp add: a)
  with b c show ?thesis
    by (simp only: NZero fp_val.simps simp_thms if_True) blast
qed (use assms in simp_all)

text \<open>
  C5, as stated, fails: for an infinite slope the text written is \<^verbatim>\<open>INF\<close>, which is
  not a number in scientific notation (and \<^verbatim>\<open>NAN\<close> for a NaN).
\<close>

theorem description_not_scientific:
  "map_option description
     (snd (write_xre_tif Map.empty ''a.tif'' (UInt16 sample_grid) False PInf (Fin 0)) ''a.tif'')
     = Some (Some ''slope = INF offset = 0.000000E+00'')"
  by (simp add: write_xre_tif_def to_u16_data_def save_def format_eval)

text \<open>
  C5, amended. For every finite slope and offset, a write of a pixel grid that succeeds
  leaves at the path a file whose description is exactly the text \<open>slope = \<close>, the slope
  formatted, the text \<open> offset = \<close>, the offset formatted. Each of the two formatted
  numbers \<open>v\<close> is a minus sign if \<open>v\<close> is negative (or the negative zero), a digit \<open>d\<close>,
  a point, six digits \<open>fr\<close>, the letter \<open>E\<close>, the sign of the exponent and at least two
  digits \<open>es\<close>. For zero all the digits are 0 and the sign of the exponent is \<open>+\<close>;
  otherwise \<open>d\<close> is not 0 and the seven-digit number \<open>d fr\<close> times ten to the power
  (exponent - 6) is within half a unit of the last digit of \<open>\<bar>v\<bar>\<close>.
\<close>

theorem description_format:
  assumes "is_finite slope" and "is_finite offset"
    and "case data of UInt16 a \<Rightarrow> pixel_grid a | Float32 a \<Rightarrow> pixel_grid a
         | Float64 a \<Rightarrow> pixel_grid a"
    and "fst (write_xre_tif fs path data rescale slope offset) = Inr ()"
    and "v = slope \<or> v = offset"
  shows "\<exists>f d fr es neg.
     snd (write_xre_tif fs path data rescale slope offset) path = Some f \<and>
     description f = Some (''slope = '' @ format_6E slope @ '' offset = '' @ format_6E offset) \<and>
     format_6E v = (if sign_bit v then ''-'' else []) @ [''0123456789'' ! d] @ ''.'' @
                   map ((!) ''0123456789'') fr @ ''E'' @
                   [if neg then CHR ''-'' else CHR ''+''] @ map ((!) ''0123456789'') es \<and>
     d < 10 \<and> length fr = 6 \<and> list_all (\<lambda>k. k < 10) fr \<and>
     2 \<le> length es \<and> list_all (\<lambda>k. k < 10) es \<and>
     (if fp_val v = 0
      then d = 0 \<and> foldl (\<lambda>a k. 10 * a + k) 0 fr = 0 \<and>
           foldl (\<lambda>a k. 10 * a + k) 0 es = 0 \<and> \<not> neg
      else 1 \<le> d \<and>
           \<bar>\<bar>fp_val v\<bar> - of_nat (d * 10 ^ 6 + foldl (\<lambda>a k. 10 * a + k) 0 fr) *
                  10 powi ((if neg then - 1 else 1) * int (foldl (\<lambda>a k. 10 * a + k) 0 es) - 6)\<bar>
             \<le> 10 powi ((if neg then - 1 else 1) * int (foldl (\<lambda>a k. 10 * a + k) 0 es) - 6) / 2)"
proof -
  have "is_finite v" using assms(1,2,5) by blast
  from format_6E_digits [OF this] written_description [OF assms(4)]
  show ?thesis by blast
qed

theorem description_format_witness:
  "is_finite (Fin 1) \<and> is_finite (Fin 0) \<and> pixel_grid sample_grid \<and>
   fst (write_xre_tif Map.empty ''a.tif'' (UInt16 sample_grid) False (Fin 1) (Fin 0)) = Inr () \<and>
   map_option description
     (snd (write_xre_tif Map.empty ''a.tif'' (UInt16 sample_grid) False (Fin 1) (Fin 0)) ''a.tif'')
     = Some (Some ''slope = 1.000000E+00 offset = 0.000000E+00'')"
proof -
  have p: "pixel_grid sample_grid"
    by (simp add: pixel_grid_def wf_ndarray_def sample_grid_def)
  then have c: "case UInt16 sample_grid of UInt16 a \<Rightarrow> pixel_grid a | Float32 a \<Rightarrow> pixel_grid a
                | Float64 a \<Rightarrow> pixel_grid a"
    by simp
  have w: "fst (write_xre_tif Map.empty ''a.tif'' (UInt16 sample_grid) False (Fin 1) (Fin 0))
             = Inr ()"
    by (simp add: write_xre_tif_def to_u16_data_def)
  have f: "sci_6E 1 = ''1.000000E+00''" "sci_6E 0 = ''0.000000E+00''"
    by (simp_all add: format_eval)
  from description_format [of "Fin 1" "Fin 0" "UInt16 sample_grid" Map.empty "''a.tif''" False
      "Fin 1", OF _ _ c w]
  obtain g where
    "snd (write_xre_tif Map.empty ''a.tif'' (UInt16 sample_grid) False (Fin 1) (Fin 0)) ''a.tif''
       = Some g"
    "description g = Some (''slope = '' @ format_6E (Fin 1) @ '' offset = '' @ format_6E (Fin 0))"
    by auto
  then have "map_option description
     (snd (write_xre_tif Map.empty ''a.tif'' (UInt16 sample_grid) False (Fin 1) (Fin 0)) ''a.tif'')
     = Some (Some ''slope = 1.000000E+00 offset = 0.000000E+00'')"
    by (simp add: f)
  with p w show ?thesis by simp
qed

section \<open>Floating-point rounding\<close>

lemma pow2_powi: "pow2 e = 2 powi e"
  by (simp add: pow2_def power_int_def inverse_eq_divide power_one_over)

lemma pow2_pos: "0 < pow2 e"
  by (simp add: pow2_def)

lemma pow2_add: "pow2 (a + b) = pow2 a * pow2 b"
  by (simp add: pow2_powi power_int_add)

lemma pow2_nat: "pow2 (int n) = 2 ^ n"
  by (simp add: pow2_def)

lemma pow2_neg_nat: "pow2 (- int n) = 1 / 2 ^ n"
  by (simp add: pow2_powi power_int_minus inverse_eq_divide)

lemma pow2_shift: "pow2 (e + int n) = 2 ^ n * pow2 e"
  using pow2_add [of e "int n"] by (simp add: pow2_nat mult.commute)

lemma ilog2_bounds: "0 < k \<Longrightarrow> 2 ^ ilog2 k \<le> k \<and> k < 2 ^ Suc (ilog2 k)"
proof (induction k rule: ilog2.induct)
  case (1 k)
  show ?case
  proof (cases "k < 2")
    case True
    with "1.prems" show ?thesis by (simp add: ilog2.simps [of k])
  next
    case False
    then have pos: "0 < k div 2" by (simp add: div_greater_zero_iff)
    from "1.IH" [OF False pos]
    have lo: "2 ^ ilog2 (k div 2) \<le> k div 2" and hi: "k div 2 < 2 ^ Suc (ilog2 (k div 2))"
      by simp_all
    have eq: "ilog2 k = Suc (ilog2 (k div 2))"
      using False by (simp add: ilog2.simps [of k])
    have "2 * 2 ^ ilog2 (k div 2) \<le> 2 * (k div 2)" using lo by simp
    also have "\<dots> \<le> k" by simp
    finally have a: "2 ^ ilog2 k \<le> k" by (simp add: eq)
    have "k < 2 * (k div 2 + 1)" by presburger
    also have "\<dots> \<le> 2 * 2 ^ Suc (ilog2 (k div 2))" using hi by simp
    finally have b: "k < 2 ^ Suc (ilog2 k)" by (simp add: eq)
    from a b show ?thesis ..
  qed
qed

lemma exponent2_bounds:
  assumes "x \<noteq> 0"
  shows "pow2 (exponent2 x) \<le> \<bar>x\<bar> \<and> \<bar>x\<bar> < pow2 (exponent2 x + 1)"
proof (cases "1 \<le> \<bar>x\<bar>")
  case True
  define n where "n = nat \<lfloor>\<bar>x\<bar>\<rfloor>"
  have f1: "1 \<le> \<lfloor>\<bar>x\<bar>\<rfloor>" using True by simp
  then have n: "0 < n" by (simp add: n_def)
  have nx: "of_nat n \<le> \<bar>x\<bar>" "\<bar>x\<bar> < of_nat n + 1"
    using f1 by (simp_all add: n_def) linarith+
  have e: "exponent2 x = int (ilog2 n)"
    using True by (simp add: exponent2_def n_def)
  from ilog2_bounds [OF n] have lo: "2 ^ ilog2 n \<le> n" and hi: "n + 1 \<le> 2 ^ Suc (ilog2 n)"
    by simp_all
  have "(2::rat) ^ ilog2 n \<le> of_nat n"
    using lo by (metis of_nat_le_iff of_nat_numeral of_nat_power)
  then have "(2::rat) ^ ilog2 n \<le> \<bar>x\<bar>"
    using nx(1) by (rule order_trans)
  then have a: "pow2 (exponent2 x) \<le> \<bar>x\<bar>"
    by (simp only: e pow2_nat)
  have "of_nat (n + 1) \<le> (2::rat) ^ Suc (ilog2 n)"
    using hi by (metis of_nat_le_iff of_nat_numeral of_nat_power)
  then have "\<bar>x\<bar> < 2 ^ Suc (ilog2 n)" using nx(2) by simp
  moreover have "pow2 (exponent2 x + 1) = 2 ^ Suc (ilog2 n)"
    using pow2_nat [of "Suc (ilog2 n)"] by (simp add: e add.commute)
  ultimately show ?thesis using a by simp
next
  case False
  define y where "y = 1 / \<bar>x\<bar>"
  define c where "c = nat \<lceil>y\<rceil>"
  define k where "k = ilog2 (c - 1)"
  have xpos: "0 < \<bar>x\<bar>" using assms by simp
  have y1: "1 < y" using False xpos by (simp add: y_def)
  then have ce: "2 \<le> \<lceil>y\<rceil>" by linarith
  have c2: "2 \<le> c" unfolding c_def using ce by linarith
  have cc: "int c = \<lceil>y\<rceil>" unfolding c_def using ce by linarith
  have yc: "of_nat c - 1 < y" "y \<le> of_nat c"
  proof -
    have "of_int \<lceil>y\<rceil> - 1 < y" "y \<le> of_int \<lceil>y\<rceil>" by linarith+
    then show "of_nat c - 1 < y" "y \<le> of_nat c"
      using cc by (metis of_int_of_nat_eq)+
  qed
  have e: "exponent2 x = - int (Suc k)"
    using False by (simp add: exponent2_def k_def c_def y_def)
  from c2 have "0 < c - 1" by simp
  from ilog2_bounds [OF this]
  have lo: "2 ^ k \<le> c - 1" and hi': "c - 1 < 2 ^ Suc k"
    unfolding k_def by blast+
  from hi' have hi: "c \<le> 2 ^ Suc k" by linarith
  have "of_nat (2 ^ k) \<le> (of_nat (c - 1) :: rat)" using lo by (simp only: of_nat_le_iff)
  then have "(2::rat) ^ k \<le> of_nat c - 1" using c2 by (simp add: of_nat_diff)
  then have ylo: "2 ^ k < y" using yc(1) by simp
  have "(of_nat c :: rat) \<le> of_nat (2 ^ Suc k)" using hi by (simp only: of_nat_le_iff)
  then have yhi: "y \<le> 2 ^ Suc k" using yc(2) by simp
  have xy: "\<bar>x\<bar> = 1 / y" using xpos by (simp add: y_def)
  have ypos: "0 < y" using y1 by simp
  have a: "1 / 2 ^ Suc k \<le> \<bar>x\<bar>"
    unfolding xy using yhi ypos by (simp add: frac_le)
  have b: "\<bar>x\<bar> < 1 / 2 ^ k"
    unfolding xy using ylo by (simp add: frac_less2)
  have p1: "pow2 (exponent2 x) = 1 / 2 ^ Suc k"
    unfolding e by (rule pow2_neg_nat)
  have "exponent2 x + 1 = - int k" by (simp add: e)
  then have p2: "pow2 (exponent2 x + 1) = 1 / 2 ^ k"
    by (simp only: pow2_neg_nat)
  show ?thesis using a b by (simp only: p1 p2)
qed

text \<open>
  A rounding that returns a finite value is off by at most half a unit in the last
  place: a relative error of \<open>2 ^ - p\<close>, or half the spacing of the subnormal numbers.
\<close>

lemma round_to_error:
  assumes "round_to p emin emax z = Fin r"
  shows "\<bar>r - z\<bar> \<le> pow2 (- int p) * \<bar>z\<bar> + pow2 (emin - int p)"
proof (cases "z = 0")
  case True
  with assms have "r = 0" by (simp add: round_to_def)
  then show ?thesis using True pow2_pos [of "emin - int p"] by simp
next
  case False
  define e where "e = max emin (exponent2 z)"
  define q where "q = pow2 (e - int p + 1)"
  define m where "m = round_half_even (\<bar>z\<bar> / q)"
  have qpos: "0 < q" by (simp add: q_def pow2_pos)
  have "round_to p emin emax z
          = (if pow2 (emax + 1) \<le> of_nat m * q then inf_of (z < 0)
             else Fin (sgn z * (of_nat m * q)))"
    using False by (simp add: round_to_def Let_def e_def q_def m_def)
  with assms have r: "r = sgn z * (of_nat m * q)"
    by (simp add: inf_of_def split: if_splits)
  have "0 \<le> \<bar>z\<bar> / q" using qpos by simp
  from round_half_even_near [OF this] have "\<bar>of_nat m - \<bar>z\<bar> / q\<bar> \<le> 1 / 2"
    by (simp add: m_def)
  then have "\<bar>of_nat m - \<bar>z\<bar> / q\<bar> * q \<le> 1 / 2 * q"
    using qpos by (simp only: mult_le_cancel_right_pos)
  moreover have "\<bar>of_nat m - \<bar>z\<bar> / q\<bar> * q = \<bar>of_nat m * q - \<bar>z\<bar>\<bar>"
  proof -
    have "(of_nat m - \<bar>z\<bar> / q) * q = of_nat m * q - \<bar>z\<bar>"
      using qpos by (simp add: algebra_simps)
    then have "\<bar>of_nat m - \<bar>z\<bar> / q\<bar> * \<bar>q\<bar> = \<bar>of_nat m * q - \<bar>z\<bar>\<bar>"
      by (simp only: abs_mult [symmetric])
    then show ?thesis using qpos by simp
  qed
  ultimately have near: "\<bar>of_nat m * q - \<bar>z\<bar>\<bar> \<le> q / 2" by simp
  have "z = sgn z * \<bar>z\<bar>" by (simp add: sgn_mult_abs)
  then have "r - z = sgn z * (of_nat m * q - \<bar>z\<bar>)"
    unfolding r by (simp only: right_diff_distrib)
  then have "\<bar>r - z\<bar> = \<bar>sgn z\<bar> * \<bar>of_nat m * q - \<bar>z\<bar>\<bar>"
    by (simp only: abs_mult)
  then have rz: "\<bar>r - z\<bar> = \<bar>of_nat m * q - \<bar>z\<bar>\<bar>"
    using False by (simp add: abs_sgn_eq)
  have q2: "q / 2 = pow2 (e - int p)"
    using pow2_add [of "e - int p" 1] by (simp add: q_def pow2_def)
  have "pow2 (e - int p) \<le> pow2 (- int p) * \<bar>z\<bar> + pow2 (emin - int p)"
  proof (cases "emin \<le> exponent2 z")
    case True
    then have "e = exponent2 z" by (simp add: e_def)
    then have "pow2 (e - int p) = pow2 (- int p) * pow2 (exponent2 z)"
      using pow2_add [of "- int p" "exponent2 z"] by simp
    also have "\<dots> \<le> pow2 (- int p) * \<bar>z\<bar>"
      using exponent2_bounds [OF False] pow2_pos [of "- int p"]
      by (simp only: mult_le_cancel_left_pos)
    also have "\<dots> \<le> pow2 (- int p) * \<bar>z\<bar> + pow2 (emin - int p)"
      using pow2_pos [of "emin - int p"] by simp
    finally show ?thesis .
  next
    case False
    then have "e = emin" by (simp add: e_def)
    moreover have "0 \<le> pow2 (- int p) * \<bar>z\<bar>"
      using pow2_pos [of "- int p"] by simp
    ultimately show ?thesis by simp
  qed
  with near show ?thesis by (simp only: rz q2)
qed

lemma fl32_error:
  assumes "fl32 z = Fin r"
  shows "\<bar>r - z\<bar> \<le> \<bar>z\<bar> / 2 ^ 24 + 1 / 2 ^ 150"
proof -
  have "\<bar>r - z\<bar> \<le> pow2 (- int 24) * \<bar>z\<bar> + pow2 (- 126 - int 24)"
    using assms unfolding fl32_def by (rule round_to_error)
  then show ?thesis by (simp add: pow2_def)
qed

subsection \<open>Arithmetic on finite values\<close>

lemma is_zero_finite: "is_finite b \<Longrightarrow> is_zero b \<longleftrightarrow> fp_val b = 0"
  by (cases b) (simp_all add: is_zero_def)

lemma fp_neg_finite: "is_finite b \<Longrightarrow> is_finite (fp_neg b) \<and> fp_val (fp_neg b) = - fp_val b"
  by (cases b) simp_all

lemma fp_add_finite:
  assumes "is_finite a" and "is_finite b"
  shows "fp_add rnd a b = rnd (fp_val a + fp_val b)"
  using assms by (cases a; cases b; simp add: fp_add_def)

lemma fp_sub_finite:
  assumes "is_finite a" and "is_finite b"
  shows "fp_sub rnd a b = rnd (fp_val a - fp_val b)"
  using fp_neg_finite [OF assms(2)] assms(1) by (simp add: fp_sub_def fp_add_finite)

lemma fp_mul_finite:
  assumes "is_finite a" and "is_finite b"
  shows "fp_mul rnd a b = rnd (fp_val a * fp_val b)"
  using assms by (cases a; cases b; simp add: fp_mul_def)

lemma fp_div_finite:
  assumes "is_finite a" and "is_finite b" and "fp_val b \<noteq> 0"
  shows "fp_div rnd a b = rnd (fp_val a / fp_val b)"
  using assms by (cases a; cases b; simp add: fp_div_def is_zero_def)

section \<open>Reading with rescaling\<close>

text \<open>
  C8. When the file opens, its pixel data loads and the description parses to
  \<open>(slope, offset)\<close>, the rescaled read succeeds, whatever the slope and the offset are,
  and returns the float32 array whose every element is \<open>sample * slope + offset\<close>
  computed in float32: the slope and the offset converted to float32, the product
  rounded, the sum rounded (an overflow gives an infinity, not an error). Where these
  are finite, the element \<open>y\<close> is within float32 rounding of the exact value: half a unit in
  the last place of the product and of the sum.
\<close>

theorem forward_rescale:
  assumes "open_image fs path = Inr img" and "np_array img = Inr data"
    and "extract_slope_offset img = Inr (slope, offset)"
  shows "read_xre_tif fs path True
           = Inr (Float32 (map_ndarray
                    (\<lambda>s. fp_add fl32 (fp_mul fl32 (Fin (of_int (uint s))) (to_f32 slope))
                                       (to_f32 offset)) data)) \<and>
         (is_finite (to_f32 slope) \<longrightarrow> is_finite (to_f32 offset) \<longrightarrow>
          a = fp_val (to_f32 slope) \<longrightarrow> b = fp_val (to_f32 offset) \<longrightarrow>
          fl32 (of_int (uint s) * a) = Fin p \<longrightarrow> fl32 (p + b) = Fin y \<longrightarrow>
            fp_add fl32 (fp_mul fl32 (Fin (of_int (uint s))) (to_f32 slope)) (to_f32 offset)
              = Fin y \<and>
            \<bar>y - (of_int (uint s) * a + b)\<bar>
              \<le> (\<bar>of_int (uint s) * a\<bar> + \<bar>p + b\<bar>) / 2 ^ 24 + 1 / 2 ^ 149)"
proof -
  have r: "read_xre_tif fs path True
           = Inr (Float32 (map_ndarray
                    (\<lambda>s. fp_add fl32 (fp_mul fl32 (Fin (of_int (uint s))) (to_f32 slope))
                                       (to_f32 offset)) data))"
    using assms by (simp add: read_xre_tif_def astype_float32_def)
  have "fp_add fl32 (fp_mul fl32 (Fin (of_int (uint s))) (to_f32 slope)) (to_f32 offset)
              = Fin y \<and>
            \<bar>y - (of_int (uint s) * a + b)\<bar>
              \<le> (\<bar>of_int (uint s) * a\<bar> + \<bar>p + b\<bar>) / 2 ^ 24 + 1 / 2 ^ 149"
    if f: "is_finite (to_f32 slope)" "is_finite (to_f32 offset)"
      and ab: "a = fp_val (to_f32 slope)" "b = fp_val (to_f32 offset)"
      and p: "fl32 (of_int (uint s) * a) = Fin p" and y: "fl32 (p + b) = Fin y"
  proof -
    have m: "fp_mul fl32 (Fin (of_int (uint s))) (to_f32 slope) = Fin p"
      using f(1) p by (simp add: fp_mul_finite ab)
    have s: "fp_add fl32 (Fin p) (to_f32 offset) = Fin y"
      using f(2) y by (simp add: fp_add_finite ab)
    have e1: "\<bar>p - of_int (uint s) * a\<bar> \<le> \<bar>of_int (uint s) * a\<bar> / 2 ^ 24 + 1 / 2 ^ 150"
      using p by (rule fl32_error)
    have e2: "\<bar>y - (p + b)\<bar> \<le> \<bar>p + b\<bar> / 2 ^ 24 + 1 / 2 ^ 150"
      using y by (rule fl32_error)
    have "\<bar>y - (of_int (uint s) * a + b)\<bar>
            \<le> \<bar>y - (p + b)\<bar> + \<bar>p - of_int (uint s) * a\<bar>"
      by linarith
    also have "\<dots> \<le> (\<bar>of_int (uint s) * a\<bar> + \<bar>p + b\<bar>) / 2 ^ 24 + 1 / 2 ^ 149"
      using e1 e2 by (simp add: add_divide_distrib)
    finally show ?thesis using m s by simp
  qed
  with r show ?thesis by blast
qed

theorem forward_rescale_witness:
  "(\<exists>img. open_image [''a.tif'' \<mapsto> sample_file] ''a.tif'' = Inr img \<and>
          np_array img = Inr \<lparr>nrows = 1, ncols = 2, flat = [200, 100]\<rparr> \<and>
          extract_slope_offset img = Inr (Fin (1 / 2), Fin 100)) \<and>
   is_finite (to_f32 (Fin (1 / 2))) \<and> is_finite (to_f32 (Fin 100)) \<and>
   fl32 (of_int (uint (100 :: u16)) * fp_val (to_f32 (Fin (1 / 2)))) = Fin 50 \<and>
   fl32 (50 + fp_val (to_f32 (Fin 100))) = Fin 150 \<and>
   fp_add fl32 (fp_mul fl32 (Fin (of_int (uint (100 :: u16)))) (to_f32 (Fin (1 / 2))))
     (to_f32 (Fin 100)) = Fin 150 \<and>
   read_xre_tif [''a.tif'' \<mapsto> sample_file] ''a.tif'' True
     = Inr (Float32 \<lparr>nrows = 1, ncols = 2, flat = [Fin 200, Fin 150]\<rparr>)"
proof -
  let ?img = "\<lparr>size_wh = (2, 1), raw = [200, 0, 100, 0], tag_v2 = Some (tags_of sample_file)\<rparr>"
  have o: "open_image [''a.tif'' \<mapsto> sample_file] ''a.tif'' = Inr ?img"
    by (simp add: open_image_def sample_file_def)
  have n: "np_array ?img = Inr \<lparr>nrows = 1, ncols = 2, flat = [200, 100]\<rparr>"
    by (simp add: np_array_def)
  have d: "decimal_of_string ''5.000000E-01'' = Inr (1 / 2)"
          "decimal_of_string ''1.000000E+02'' = Inr 100"
    by (simp_all add: parse_eval)
  have c: "fl64 (1 / 2) = Fin (1 / 2)" "fl64 100 = Fin 100"
          "fl32 (1 / 2) = Fin (1 / 2)" "fl32 100 = Fin 100"
          "fl32 50 = Fin 50" "fl32 150 = Fin 150" "fl32 200 = Fin 200"
    by (simp_all add: float_eval)
  have e: "extract_slope_offset ?img = Inr (Fin (1 / 2), Fin 100)"
    by (simp add: sample_file_def extract_slope_offset_def tags_of_def match_at_def lower_def
          is_space_def number_char_def is_digit_def float_of_string_def d c)
  have f: "is_finite (to_f32 (Fin (1 / 2)))" "is_finite (to_f32 (Fin 100))"
    by (simp_all add: to_f32_def c)
  have p: "fl32 (of_int (uint (100 :: u16)) * fp_val (to_f32 (Fin (1 / 2)))) = Fin 50"
    by (simp add: to_f32_def c)
  have y: "fl32 (50 + fp_val (to_f32 (Fin 100))) = Fin 150"
    by (simp add: to_f32_def c)
  have "read_xre_tif [''a.tif'' \<mapsto> sample_file] ''a.tif'' True
          = Inr (Float32 \<lparr>nrows = 1, ncols = 2, flat = [Fin 200, Fin 150]\<rparr>)"
    using forward_rescale [OF o n e, THEN conjunct1]
    by (simp add: map_ndarray_def to_f32_def c fp_mul_def fp_add_def)
  moreover have "fp_add fl32 (fp_mul fl32 (Fin (of_int (uint (100 :: u16)))) (to_f32 (Fin (1 / 2))))
                   (to_f32 (Fin 100)) = Fin 150"
    using forward_rescale [OF o n e, THEN conjunct2, rule_format, OF f refl refl p y] by blast
  ultimately show ?thesis using o n e f p y by blast
qed

text \<open>
  Two readings that show the float32 arithmetic. With slope 1 and offset \<open>2 ^ - 10\<close> the
  sample 65535 reads as 65535: the exact sum is not a float32. With slope \<open>10 ^ 38\<close> and
  offset \<open>10 ^ 39\<close> the read succeeds and the sample 1 reads as infinity.
\<close>

lemma rescaled_read_rounds:
  "read_xre_tif [''a.tif'' \<mapsto> \<lparr>width = 1, height = 1, strip = [255, 255],
       description = Some ''slope = 1 offset = 0.0009765625'', software = None\<rparr>] ''a.tif'' True
     = Inr (Float32 \<lparr>nrows = 1, ncols = 1, flat = [Fin 65535]\<rparr>)"
proof -
  have d: "decimal_of_string ''1'' = Inr 1"
          "decimal_of_string ''0.0009765625'' = Inr (1 / 1024)"
    by (simp_all add: parse_eval)
  have c: "fl64 1 = Fin 1" "fl64 (1 / 1024) = Fin (1 / 1024)"
          "fl32 1 = Fin 1" "fl32 (1 / 1024) = Fin (1 / 1024)"
          "fl32 65535 = Fin 65535" "fl32 (67107841 / 1024) = Fin 65535"
    by (simp_all add: float_eval)
  show ?thesis
    by (simp add: read_xre_tif_def open_image_def np_array_def extract_slope_offset_def
          tags_of_def match_at_def lower_def is_space_def number_char_def is_digit_def
          float_of_string_def d map_ndarray_def astype_float32_def to_f32_def fp_mul_def
          fp_add_def c)
qed

lemma rescaled_read_overflows:
  "read_xre_tif [''a.tif'' \<mapsto> \<lparr>width = 1, height = 1, strip = [1, 0],
       description = Some ''slope = 1e38 offset = 1e39'', software = None\<rparr>] ''a.tif'' True
     = Inr (Float32 \<lparr>nrows = 1, ncols = 1, flat = [PInf]\<rparr>)"
proof -
  have d: "decimal_of_string ''1e38'' = Inr (10 ^ 38)"
          "decimal_of_string ''1e39'' = Inr (10 ^ 39)"
    by (simp_all add: parse_eval)
  show ?thesis
    by (simp add: read_xre_tif_def open_image_def np_array_def extract_slope_offset_def
          tags_of_def match_at_def lower_def is_space_def number_char_def is_digit_def
          float_of_string_def d map_ndarray_def astype_float32_def float_eval)
qed

section \<open>Round trip with rescaling\<close>

lemma read_written_rescaled:
  assumes "to_u16_data data True slope offset = Inr u" and "wf_ndarray u"
    and "is_finite slope" and "is_finite offset"
    and "float_of_string (format_6E slope) = Inr sv"
    and "float_of_string (format_6E offset) = Inr ov"
  shows "read_xre_tif (snd (write_xre_tif fs path data True slope offset)) path True
           = Inr (Float32 (map_ndarray
                    (\<lambda>n. fp_add fl32 (fp_mul fl32 (astype_float32 n) (to_f32 sv)) (to_f32 ov)) u))"
  by (subst write_ok [OF assms(1)])
     (simp only: snd_conv read_saved_rescaled [OF assms(2) extract_formatted [OF assms(3-6)]])

lemma to_f32_finite: "is_finite (to_f32 v) \<Longrightarrow> is_finite v"
  by (cases v) (simp_all add: to_f32_def)

lemma to_f32_zero: "is_zero v \<Longrightarrow> fp_val (to_f32 v) = 0"
  by (auto simp add: is_zero_def to_f32_def fl32_def round_to_def)

text \<open>The stored sample, where the quotient computed in float32 is in range.\<close>

lemma stored_sample:
  assumes "is_finite v" and "is_finite (to_f32 offset)" and "is_finite (to_f32 slope)"
    and "fp_val (to_f32 slope) \<noteq> 0"
    and "fl32 (fp_val v - fp_val (to_f32 offset)) = Fin d"
    and "fl32 (d / fp_val (to_f32 slope)) = Fin q" and "0 \<le> q" and "q < 65536"
  shows "uint (astype_uint16 (fp_div fl32 (fp_sub fl32 v (to_f32 offset)) (to_f32 slope)))
           = \<lfloor>q\<rfloor>"
proof -
  have "fp_sub fl32 v (to_f32 offset) = Fin d"
    using assms(1,2,5) by (simp add: fp_sub_finite)
  then have "fp_div fl32 (fp_sub fl32 v (to_f32 offset)) (to_f32 slope) = Fin q"
    using assms(3,4,6) by (simp add: fp_div_finite)
  moreover have "trunc q = \<lfloor>q\<rfloor>" using assms(7) by (rule trunc_nonneg)
  moreover have "0 \<le> \<lfloor>q\<rfloor>" using assms(7) by simp
  moreover have "\<lfloor>q\<rfloor> < 65536" using assms(8) by (simp add: floor_less_iff)
  ultimately show ?thesis using astype_uint16_in_range [of q] by simp
qed

text \<open>
  The error of one element, from the four float32 roundings, the fraction the cast
  drops, and the change of the calibration between the write and the read.
\<close>

lemma roundtrip_error:
  fixes x c s c' s' d q p y :: rat
  assumes s: "s \<noteq> 0"
    and d: "fl32 (x - c) = Fin d" and q: "fl32 (d / s) = Fin q"
    and p: "fl32 (of_int \<lfloor>q\<rfloor> * s') = Fin p" and y: "fl32 (p + c') = Fin y"
    and q0: "0 \<le> q"
  shows "\<bar>y - x\<bar> < \<bar>s\<bar> + of_int \<lfloor>q\<rfloor> * \<bar>s' - s\<bar> + \<bar>c' - c\<bar>
                   + (\<bar>x - c\<bar> + \<bar>d\<bar> + \<bar>of_int \<lfloor>q\<rfloor> * s'\<bar> + \<bar>p + c'\<bar>) / 2 ^ 24
                   + (3 + \<bar>s\<bar>) / 2 ^ 150"
proof -
  define n :: rat where "n = of_int \<lfloor>q\<rfloor>"
  define A1 where "A1 = y - (p + c')"
  define A2 where "A2 = p - n * s'"
  define A3 where "A3 = n * (s' - s)"
  define A4 where "A4 = c' - c"
  define A5 where "A5 = (n - q) * s"
  define A6 where "A6 = q * s - d"
  define A7 where "A7 = d - (x - c)"
  have n0: "0 \<le> n" using q0 by (simp add: n_def)
  have spos: "0 < \<bar>s\<bar>" using s by simp
  have b1: "\<bar>A1\<bar> \<le> \<bar>p + c'\<bar> / 2 ^ 24 + 1 / 2 ^ 150"
    unfolding A1_def using y by (rule fl32_error)
  have b2: "\<bar>A2\<bar> \<le> \<bar>n * s'\<bar> / 2 ^ 24 + 1 / 2 ^ 150"
    unfolding A2_def n_def using p by (rule fl32_error)
  have b3: "\<bar>A3\<bar> = n * \<bar>s' - s\<bar>"
    using n0 by (simp add: A3_def abs_mult)
  have "\<bar>n - q\<bar> < 1" unfolding n_def by linarith
  then have "\<bar>n - q\<bar> * \<bar>s\<bar> < 1 * \<bar>s\<bar>"
    using spos by (simp only: mult_less_cancel_right_pos)
  then have b5: "\<bar>A5\<bar> < \<bar>s\<bar>" by (simp add: A5_def abs_mult)
  have "\<bar>q - d / s\<bar> \<le> \<bar>d / s\<bar> / 2 ^ 24 + 1 / 2 ^ 150"
    using q by (rule fl32_error)
  then have "\<bar>q - d / s\<bar> * \<bar>s\<bar> \<le> (\<bar>d / s\<bar> / 2 ^ 24 + 1 / 2 ^ 150) * \<bar>s\<bar>"
    using spos by (simp only: mult_le_cancel_right_pos)
  moreover have "\<bar>q - d / s\<bar> * \<bar>s\<bar> = \<bar>A6\<bar>"
  proof -
    have "(q - d / s) * s = q * s - d" using s by (simp add: algebra_simps)
    then show ?thesis unfolding A6_def by (simp only: abs_mult [symmetric])
  qed
  moreover have "(\<bar>d / s\<bar> / 2 ^ 24 + 1 / 2 ^ 150) * \<bar>s\<bar> = \<bar>d\<bar> / 2 ^ 24 + \<bar>s\<bar> / 2 ^ 150"
    using s by (simp add: algebra_simps abs_divide)
  ultimately have b6: "\<bar>A6\<bar> \<le> \<bar>d\<bar> / 2 ^ 24 + \<bar>s\<bar> / 2 ^ 150" by simp
  have b7: "\<bar>A7\<bar> \<le> \<bar>x - c\<bar> / 2 ^ 24 + 1 / 2 ^ 150"
    unfolding A7_def using d by (rule fl32_error)
  have "y - x = A1 + A2 + A3 + A4 + A5 + A6 + A7"
    by (simp add: A1_def A2_def A3_def A4_def A5_def A6_def A7_def algebra_simps)
  then have "\<bar>y - x\<bar> \<le> \<bar>A1\<bar> + \<bar>A2\<bar> + \<bar>A3\<bar> + \<bar>A4\<bar> + \<bar>A5\<bar> + \<bar>A6\<bar> + \<bar>A7\<bar>"
    by linarith
  also have "\<dots> < (\<bar>p + c'\<bar> / 2 ^ 24 + 1 / 2 ^ 150) + (\<bar>n * s'\<bar> / 2 ^ 24 + 1 / 2 ^ 150)
                  + n * \<bar>s' - s\<bar> + \<bar>c' - c\<bar> + \<bar>s\<bar> + (\<bar>d\<bar> / 2 ^ 24 + \<bar>s\<bar> / 2 ^ 150)
                  + (\<bar>x - c\<bar> / 2 ^ 24 + 1 / 2 ^ 150)"
    using b1 b2 b3 b5 b6 b7 unfolding A4_def by linarith
  also have "\<dots> = \<bar>s\<bar> + n * \<bar>s' - s\<bar> + \<bar>c' - c\<bar>
                   + (\<bar>x - c\<bar> + \<bar>d\<bar> + \<bar>n * s'\<bar> + \<bar>p + c'\<bar>) / 2 ^ 24
                   + (3 + \<bar>s\<bar>) / 2 ^ 150"
    by (simp add: add_divide_distrib)
  finally show ?thesis unfolding n_def .
qed

text \<open>
  C7, as stated, fails, in three ways. A quotient out of the range of a sample: with
  slope 1 and offset 0 the value 100000 is stored as 34464 and read back as 34464. The
  calibration is read back from a text of seven digits: with slope 1 and offset
  123456789 the value 123456800 is stored as 8 and read back, with the offset
  123456800, as 123456808. The float32 roundings: with slope 1.25 and offset 16700000
  the value 16777226 is stored as 61780 and read back as 16777224, which is 2 away,
  more than \<open>1.5 * 1.25\<close>.
\<close>

theorem rescaled_roundtrip_counterexample:
  "read_xre_tif (snd (write_xre_tif Map.empty ''a.tif''
        (Float32 \<lparr>nrows = 1, ncols = 1, flat = [Fin 100000]\<rparr>) True (Fin 1) (Fin 0)))
     ''a.tif'' True
     = Inr (Float32 \<lparr>nrows = 1, ncols = 1, flat = [Fin 34464]\<rparr>) \<and>
   \<not> \<bar>34464 - 100000 :: rat\<bar> \<le> 3 / 2 * \<bar>1\<bar> \<and>
   read_xre_tif (snd (write_xre_tif Map.empty ''a.tif''
        (Float32 \<lparr>nrows = 1, ncols = 1, flat = [Fin 123456800]\<rparr>) True (Fin 1)
        (Fin 123456789)))
     ''a.tif'' True
     = Inr (Float32 \<lparr>nrows = 1, ncols = 1, flat = [Fin 123456808]\<rparr>) \<and>
   \<not> \<bar>123456808 - 123456800 :: rat\<bar> \<le> 3 / 2 * \<bar>1\<bar> \<and>
   read_xre_tif (snd (write_xre_tif Map.empty ''a.tif''
        (Float32 \<lparr>nrows = 1, ncols = 1, flat = [Fin 16777226]\<rparr>) True (Fin (5 / 4))
        (Fin 16700000)))
     ''a.tif'' True
     = Inr (Float32 \<lparr>nrows = 1, ncols = 1, flat = [Fin 16777224]\<rparr>) \<and>
   \<not> \<bar>16777224 - 16777226 :: rat\<bar> \<le> 3 / 2 * \<bar>5 / 4\<bar>"
proof -
  have t: "float_of_string (format_6E (Fin 1)) = Inr (Fin 1)"
          "float_of_string (format_6E (Fin 0)) = Inr (Fin 0)"
          "float_of_string (format_6E (Fin 123456789)) = Inr (Fin 123456800)"
          "float_of_string (format_6E (Fin (5 / 4))) = Inr (Fin (5 / 4))"
          "float_of_string (format_6E (Fin 16700000)) = Inr (Fin 16700000)"
    by (simp add: format_eval, simp add: parse_eval float_eval)+
  have w: "wf_ndarray \<lparr>nrows = 1, ncols = 1, flat = [n :: u16]\<rparr>" for n
    by (simp add: wf_ndarray_def)
  have u1: "to_u16_data (Float32 \<lparr>nrows = 1, ncols = 1, flat = [Fin 100000]\<rparr>) True
              (Fin 1) (Fin 0) = Inr \<lparr>nrows = 1, ncols = 1, flat = [34464]\<rparr>"
    by (simp add: cast_eval float_eval)
  have u2: "to_u16_data (Float32 \<lparr>nrows = 1, ncols = 1, flat = [Fin 123456800]\<rparr>) True
              (Fin 1) (Fin 123456789) = Inr \<lparr>nrows = 1, ncols = 1, flat = [8]\<rparr>"
    by (simp add: cast_eval float_eval)
  have u3: "to_u16_data (Float32 \<lparr>nrows = 1, ncols = 1, flat = [Fin 16777226]\<rparr>) True
              (Fin (5 / 4)) (Fin 16700000) = Inr \<lparr>nrows = 1, ncols = 1, flat = [61780]\<rparr>"
    by (simp add: cast_eval float_eval)
  have r1: "read_xre_tif (snd (write_xre_tif Map.empty ''a.tif''
        (Float32 \<lparr>nrows = 1, ncols = 1, flat = [Fin 100000]\<rparr>) True (Fin 1) (Fin 0)))
     ''a.tif'' True
     = Inr (Float32 \<lparr>nrows = 1, ncols = 1, flat = [Fin 34464]\<rparr>)"
    by (subst read_written_rescaled [OF u1 w _ _ t(1) t(2)])
       (simp_all add: map_ndarray_def astype_float32_def float_eval)
  have r2: "read_xre_tif (snd (write_xre_tif Map.empty ''a.tif''
        (Float32 \<lparr>nrows = 1, ncols = 1, flat = [Fin 123456800]\<rparr>) True (Fin 1)
        (Fin 123456789)))
     ''a.tif'' True
     = Inr (Float32 \<lparr>nrows = 1, ncols = 1, flat = [Fin 123456808]\<rparr>)"
    by (subst read_written_rescaled [OF u2 w _ _ t(1) t(3)])
       (simp_all add: map_ndarray_def astype_float32_def float_eval)
  have r3: "read_xre_tif (snd (write_xre_tif Map.empty ''a.tif''
        (Float32 \<lparr>nrows = 1, ncols = 1, flat = [Fin 16777226]\<rparr>) True (Fin (5 / 4))
        (Fin 16700000)))
     ''a.tif'' True
     = Inr (Float32 \<lparr>nrows = 1, ncols = 1, flat = [Fin 16777224]\<rparr>)"
    by (subst read_written_rescaled [OF u3 w _ _ t(4) t(5)])
       (simp_all add: map_ndarray_def astype_float32_def float_eval)
  show ?thesis
    by (simp only: r1 r2 r3) simp
qed

text \<open>
  C7, amended. In float32 arithmetic, for every float32 grid and every calibration
  whose slope is not zero as a float32: take an element \<open>x\<close> for which the difference
  \<open>d = fl32 (x - c)\<close> and the quotient \<open>q = fl32 (d / s)\<close> are finite and \<open>q\<close> lies in
  \<open>[0, 65536)\<close>, where \<open>s\<close> and \<open>c\<close> are the slope and the offset as float32. The file
  holds the sample \<open>\<lfloor>q\<rfloor>\<close> and the calibration as a text of seven digits; \<open>s'\<close> and
  \<open>c'\<close> are the slope and the offset read from that text, as float32. Where the product
  \<open>p = fl32 (\<lfloor>q\<rfloor> * s')\<close> and the sum \<open>y = fl32 (p + c')\<close> are finite, the write
  followed by the rescaled read succeeds, keeps the shape, and returns \<open>y\<close> for that
  element, with \<open>\<bar>y - x\<bar>\<close> less than \<open>\<bar>s\<bar>\<close> (one quantization step), plus
  \<open>\<lfloor>q\<rfloor> * \<bar>s' - s\<bar> + \<bar>c' - c\<bar>\<close> (the change of the calibration), plus
  \<open>2 ^ - 24\<close> times \<open>\<bar>x - c\<bar> + \<bar>d\<bar> + \<bar>\<lfloor>q\<rfloor> * s'\<bar> + \<bar>p + c'\<bar>\<close> and \<open>2 ^ - 150\<close>
  times \<open>3 + \<bar>s\<bar>\<close> (the four roundings).
\<close>

theorem rescaled_roundtrip_bound:
  assumes "wf_ndarray a" and "i < length (flat a)"
    and "is_finite (flat a ! i)" and "x = fp_val (flat a ! i)"
    and "is_finite (to_f32 slope)" and "s = fp_val (to_f32 slope)" and "s \<noteq> 0"
    and "is_finite (to_f32 offset)" and "c = fp_val (to_f32 offset)"
    and "float_of_string (format_6E slope) = Inr sv"
    and "is_finite (to_f32 sv)" and "s' = fp_val (to_f32 sv)"
    and "float_of_string (format_6E offset) = Inr ov"
    and "is_finite (to_f32 ov)" and "c' = fp_val (to_f32 ov)"
    and "fl32 (x - c) = Fin d" and "fl32 (d / s) = Fin q" and "0 \<le> q" and "q < 65536"
    and "fl32 (of_int \<lfloor>q\<rfloor> * s') = Fin p" and "fl32 (p + c') = Fin y"
  shows "\<exists>b. read_xre_tif (snd (write_xre_tif fs path (Float32 a) True slope offset)) path True
               = Inr (Float32 b) \<and>
             nrows b = nrows a \<and> ncols b = ncols a \<and> length (flat b) = length (flat a) \<and>
             flat b ! i = Fin y \<and>
             \<bar>y - x\<bar> < \<bar>s\<bar> + of_int \<lfloor>q\<rfloor> * \<bar>s' - s\<bar> + \<bar>c' - c\<bar>
                         + (\<bar>x - c\<bar> + \<bar>d\<bar> + \<bar>of_int \<lfloor>q\<rfloor> * s'\<bar> + \<bar>p + c'\<bar>) / 2 ^ 24
                         + (3 + \<bar>s\<bar>) / 2 ^ 150"
proof -
  let ?inv = "\<lambda>v. astype_uint16 (fp_div fl32 (fp_sub fl32 v (to_f32 offset)) (to_f32 slope))"
  let ?fwd = "\<lambda>n. fp_add fl32 (fp_mul fl32 (astype_float32 n) (to_f32 sv)) (to_f32 ov)"
  let ?b = "map_ndarray ?fwd (map_ndarray ?inv a)"
  have fs: "is_finite slope" using assms(5) by (rule to_f32_finite)
  have fo: "is_finite offset" using assms(8) by (rule to_f32_finite)
  have nz: "\<not> is_zero slope" using assms(6,7) to_f32_zero [of slope] by auto
  have u: "to_u16_data (Float32 a) True slope offset = Inr (map_ndarray ?inv a)"
    using nz by (simp add: to_u16_data_def)
  have w: "wf_ndarray (map_ndarray ?inv a)" using assms(1) by (rule wf_map_ndarray)
  have r: "read_xre_tif (snd (write_xre_tif fs path (Float32 a) True slope offset)) path True
             = Inr (Float32 ?b)"
    using u w fs fo assms(10) assms(13) by (rule read_written_rescaled)
  have n: "uint (?inv (flat a ! i)) = \<lfloor>q\<rfloor>"
    using assms(3) assms(8) assms(5) assms(7) assms(16) assms(17) assms(18) assms(19)
    unfolding assms(4) assms(6) assms(9) by (rule stored_sample)
  have "?fwd (?inv (flat a ! i)) = Fin y"
  proof -
    have "fp_mul fl32 (astype_float32 (?inv (flat a ! i))) (to_f32 sv) = Fin p"
      using assms(11) assms(20) by (simp add: fp_mul_finite astype_float32_def n assms(12))
    then show ?thesis
      using assms(14) assms(21) by (simp add: fp_add_finite assms(15))
  qed
  then have e: "flat ?b ! i = Fin y"
    using assms(2) by (simp add: map_ndarray_def)
  have b: "\<bar>y - x\<bar> < \<bar>s\<bar> + of_int \<lfloor>q\<rfloor> * \<bar>s' - s\<bar> + \<bar>c' - c\<bar>
                         + (\<bar>x - c\<bar> + \<bar>d\<bar> + \<bar>of_int \<lfloor>q\<rfloor> * s'\<bar> + \<bar>p + c'\<bar>) / 2 ^ 24
                         + (3 + \<bar>s\<bar>) / 2 ^ 150"
    using assms(7) assms(16) assms(17) assms(20) assms(21) assms(18) by (rule roundtrip_error)
  have "nrows ?b = nrows a \<and> ncols ?b = ncols a \<and> length (flat ?b) = length (flat a)"
    by (simp add: map_ndarray_def)
  with r e b show ?thesis by blast
qed

theorem rescaled_roundtrip_bound_witness:
  "(wf_ndarray physical_grid \<and> 1 < length (flat physical_grid) \<and>
   is_finite (flat physical_grid ! 1) \<and> fp_val (flat physical_grid ! 1) = 601 / 4 \<and>
   is_finite (to_f32 (Fin (1 / 2))) \<and> fp_val (to_f32 (Fin (1 / 2))) = 1 / 2 \<and>
   is_finite (to_f32 (Fin 100)) \<and> fp_val (to_f32 (Fin 100)) = 100 \<and>
   float_of_string (format_6E (Fin (1 / 2))) = Inr (Fin (1 / 2)) \<and>
   float_of_string (format_6E (Fin 100)) = Inr (Fin 100) \<and>
   fl32 (601 / 4 - 100) = Fin (201 / 4) \<and> fl32 (201 / 4 / (1 / 2)) = Fin (201 / 2) \<and>
   fl32 (of_int \<lfloor>201 / 2 :: rat\<rfloor> * (1 / 2)) = Fin 50 \<and> fl32 (50 + 100) = Fin 150 \<and>
   read_xre_tif (snd (write_xre_tif Map.empty ''a.tif'' (Float32 physical_grid) True
        (Fin (1 / 2)) (Fin 100))) ''a.tif'' True
     = Inr (Float32 \<lparr>nrows = 1, ncols = 2, flat = [Fin 200, Fin 150]\<rparr>) \<and>
   \<bar>150 - 601 / 4 :: rat\<bar> < 1 / 2) \<and>
   (\<exists>b. read_xre_tif (snd (write_xre_tif Map.empty ''a.tif'' (Float32 physical_grid) True
        (Fin (1 / 2)) (Fin 100))) ''a.tif'' True = Inr (Float32 b) \<and>
        flat b ! 1 = Fin 150)"
proof -
  have g: "wf_ndarray physical_grid" "1 < length (flat physical_grid)"
          "is_finite (flat physical_grid ! 1)" "601 / 4 = fp_val (flat physical_grid ! 1)"
    by (simp_all add: physical_grid_def wf_ndarray_def)
  have c: "fl32 (1 / 2) = Fin (1 / 2)" "fl32 100 = Fin 100"
    by (simp_all add: float_eval)
  have f: "is_finite (to_f32 (Fin (1 / 2)))" "1 / 2 = fp_val (to_f32 (Fin (1 / 2)))"
          "is_finite (to_f32 (Fin 100))" "100 = fp_val (to_f32 (Fin 100))"
    by (simp_all add: to_f32_def c)
  have t: "float_of_string (format_6E (Fin (1 / 2))) = Inr (Fin (1 / 2))"
          "float_of_string (format_6E (Fin 100)) = Inr (Fin 100)"
    by (simp add: format_eval, simp add: parse_eval float_eval)+
  have h: "(1 / 2 :: rat) \<noteq> 0" "(0 :: rat) \<le> 201 / 2" "(201 / 2 :: rat) < 65536" by simp_all
  have a: "fl32 (601 / 4 - 100) = Fin (201 / 4)" "fl32 (201 / 4 / (1 / 2)) = Fin (201 / 2)"
          "fl32 (of_int \<lfloor>201 / 2 :: rat\<rfloor> * (1 / 2)) = Fin 50" "fl32 (50 + 100) = Fin 150"
    by (simp_all add: float_eval)
  have ex: "\<exists>b. read_xre_tif (snd (write_xre_tif Map.empty ''a.tif'' (Float32 physical_grid)
        True (Fin (1 / 2)) (Fin 100))) ''a.tif'' True = Inr (Float32 b) \<and> flat b ! 1 = Fin 150"
    using rescaled_roundtrip_bound [OF g f(1,2) h(1) f(3,4) t(1) f(1,2) t(2) f(3,4) a(1,2)
      h(2,3) a(3,4), of Map.empty "''a.tif''"]
    by blast
  have u: "to_u16_data (Float32 physical_grid) True (Fin (1 / 2)) (Fin 100)
             = Inr \<lparr>nrows = 1, ncols = 2, flat = [200, 100]\<rparr>"
    by (simp add: physical_grid_def cast_eval float_eval)
  have w: "wf_ndarray \<lparr>nrows = 1, ncols = 2, flat = [200, 100 :: u16]\<rparr>"
    by (simp add: wf_ndarray_def)
  have r: "read_xre_tif (snd (write_xre_tif Map.empty ''a.tif'' (Float32 physical_grid) True
        (Fin (1 / 2)) (Fin 100))) ''a.tif'' True
     = Inr (Float32 \<lparr>nrows = 1, ncols = 2, flat = [Fin 200, Fin 150]\<rparr>)"
    by (subst read_written_rescaled [OF u w _ _ t(1) t(2)])
       (simp_all add: map_ndarray_def astype_float32_def float_eval)
  have "\<bar>150 - 601 / 4 :: rat\<bar> < 1 / 2" by simp
  with g f t a r have "wf_ndarray physical_grid \<and> 1 < length (flat physical_grid) \<and>
   is_finite (flat physical_grid ! 1) \<and> fp_val (flat physical_grid ! 1) = 601 / 4 \<and>
   is_finite (to_f32 (Fin (1 / 2))) \<and> fp_val (to_f32 (Fin (1 / 2))) = 1 / 2 \<and>
   is_finite (to_f32 (Fin 100)) \<and> fp_val (to_f32 (Fin 100)) = 100 \<and>
   float_of_string (format_6E (Fin (1 / 2))) = Inr (Fin (1 / 2)) \<and>
   float_of_string (format_6E (Fin 100)) = Inr (Fin 100) \<and>
   fl32 (601 / 4 - 100) = Fin (201 / 4) \<and> fl32 (201 / 4 / (1 / 2)) = Fin (201 / 2) \<and>
   fl32 (of_int \<lfloor>201 / 2 :: rat\<rfloor> * (1 / 2)) = Fin 50 \<and> fl32 (50 + 100) = Fin 150 \<and>
   read_xre_tif (snd (write_xre_tif Map.empty ''a.tif'' (Float32 physical_grid) True
        (Fin (1 / 2)) (Fin 100))) ''a.tif'' True
     = Inr (Float32 \<lparr>nrows = 1, ncols = 2, flat = [Fin 200, Fin 150]\<rparr>) \<and>
   \<bar>150 - 601 / 4 :: rat\<bar> < 1 / 2"
    by simp
  then show ?thesis using ex by (rule conjI)
qed

section \<open>uint16 input with rescaling requested\<close>

text \<open>
  C9. A uint16 pixel grid written with \<open>rescale = True\<close> is stored as it is, for every
  slope and offset, a zero slope included: the write succeeds, the file holds the
  array's own samples (a raw read returns them), and its description is the text
  \<open>slope = \<close>, the slope passed, formatted, \<open> offset = \<close>, the offset passed, formatted.
  For a finite slope or offset \<open>v\<close> the formatted text records \<open>v\<close>: its sign, and seven
  digits and an exponent that denote \<open>\<bar>v\<bar>\<close> to within half a unit of the last digit.
\<close>

theorem uint16_rescale_verbatim:
  assumes "pixel_grid a"
  shows "write_xre_tif fs path (UInt16 a) True slope offset
           = (Inr (), fs(path \<mapsto> save (fromarray a)
                (''slope = '' @ format_6E slope @ '' offset = '' @ format_6E offset)
                ''py_xre_tiff'')) \<and>
         (\<exists>f. snd (write_xre_tif fs path (UInt16 a) True slope offset) path = Some f \<and>
              strip f = concat (map le_bytes (flat a)) \<and>
              description f
                = Some (''slope = '' @ format_6E slope @ '' offset = '' @ format_6E offset)) \<and>
         read_xre_tif (snd (write_xre_tif fs path (UInt16 a) True slope offset)) path False
           = Inr (UInt16 a) \<and>
         ((v = slope \<or> v = offset) \<and> is_finite v \<longrightarrow>
          (\<exists>d fr es neg.
             format_6E v = (if sign_bit v then ''-'' else []) @ [''0123456789'' ! d] @ ''.'' @
                           map ((!) ''0123456789'') fr @ ''E'' @
                           [if neg then CHR ''-'' else CHR ''+''] @ map ((!) ''0123456789'') es \<and>
             d < 10 \<and> length fr = 6 \<and> list_all (\<lambda>k. k < 10) fr \<and>
             2 \<le> length es \<and> list_all (\<lambda>k. k < 10) es \<and>
             (if fp_val v = 0
              then d = 0 \<and> foldl (\<lambda>a k. 10 * a + k) 0 fr = 0 \<and>
                   foldl (\<lambda>a k. 10 * a + k) 0 es = 0 \<and> \<not> neg
              else 1 \<le> d \<and>
                   \<bar>\<bar>fp_val v\<bar> - of_nat (d * 10 ^ 6 + foldl (\<lambda>a k. 10 * a + k) 0 fr) *
                      10 powi ((if neg then - 1 else 1) *
                               int (foldl (\<lambda>a k. 10 * a + k) 0 es) - 6)\<bar>
                     \<le> 10 powi ((if neg then - 1 else 1) *
                                 int (foldl (\<lambda>a k. 10 * a + k) 0 es) - 6) / 2)))"
proof -
  let ?d = "''slope = '' @ format_6E slope @ '' offset = '' @ format_6E offset"
  have w: "wf_ndarray a" using assms by (simp add: pixel_grid_def)
  have u: "to_u16_data (UInt16 a) True slope offset = Inr a"
    by (simp add: to_u16_data_def)
  have d: "format_description slope offset = ?d"
    by (simp add: format_description_def)
  have wr: "write_xre_tif fs path (UInt16 a) True slope offset
           = (Inr (), fs(path \<mapsto> save (fromarray a) ?d ''py_xre_tiff''))"
    using write_ok [OF u, of fs path] by (simp only: d)
  have st: "strip (save (fromarray a) ?d ''py_xre_tiff'') = concat (map le_bytes (flat a))"
    by (simp add: save_def fromarray_def)
  have de: "description (save (fromarray a) ?d ''py_xre_tiff'') = Some ?d"
    by (simp add: save_def)
  have f: "\<exists>f. snd (write_xre_tif fs path (UInt16 a) True slope offset) path = Some f \<and>
              strip f = concat (map le_bytes (flat a)) \<and> description f = Some ?d"
    unfolding wr using st de by simp
  have rd: "read_xre_tif (snd (write_xre_tif fs path (UInt16 a) True slope offset)) path False
           = Inr (UInt16 a)"
    unfolding wr by (simp only: snd_conv read_saved_raw [OF w])
  show ?thesis
    using wr f rd format_6E_digits [of v] by blast
qed

theorem uint16_rescale_verbatim_witness:
  "(pixel_grid sample_grid \<and> is_finite (Fin (- 5 / 2))) \<and>
   write_xre_tif Map.empty ''a.tif'' (UInt16 sample_grid) True (Fin 0) (Fin (- 5 / 2))
     = (Inr (), [''a.tif'' \<mapsto> save (fromarray sample_grid)
                   ''slope = 0.000000E+00 offset = -2.500000E+00'' ''py_xre_tiff'']) \<and>
   read_xre_tif (snd (write_xre_tif Map.empty ''a.tif'' (UInt16 sample_grid) True (Fin 0)
                   (Fin (- 5 / 2))))
     ''a.tif'' False = Inr (UInt16 sample_grid)"
proof -
  have p: "pixel_grid sample_grid \<and> is_finite (Fin (- 5 / 2))"
    by (simp add: pixel_grid_def wf_ndarray_def sample_grid_def)
  have f: "''slope = '' @ format_6E (Fin 0) @ '' offset = '' @ format_6E (Fin (- 5 / 2))
             = ''slope = 0.000000E+00 offset = -2.500000E+00''"
    by (simp add: format_eval)
  note t = uint16_rescale_verbatim [OF p [THEN conjunct1], of Map.empty "''a.tif''" "Fin 0"
      "Fin (- 5 / 2)" "Fin (- 5 / 2)"]
  from t [unfolded f] have
    "write_xre_tif Map.empty ''a.tif'' (UInt16 sample_grid) True (Fin 0) (Fin (- 5 / 2))
     = (Inr (), [''a.tif'' \<mapsto> save (fromarray sample_grid)
                   ''slope = 0.000000E+00 offset = -2.500000E+00'' ''py_xre_tiff'']) \<and>
   read_xre_tif (snd (write_xre_tif Map.empty ''a.tif'' (UInt16 sample_grid) True (Fin 0)
                   (Fin (- 5 / 2))))
     ''a.tif'' False = Inr (UInt16 sample_grid)"
    by blast
  with p show ?thesis by (rule conjI)
qed

section \<open>Raw reads and the description\<close>

text \<open>
  C10. Two files that differ at most in their image-description tag (its text, or
  whether it is there at all) give the same result when read with \<open>rescale = False\<close>.
\<close>

theorem read_ignores_description:
  assumes "fs1 path = Some f" and "fs2 path = Some (f\<lparr>description := d\<rparr>)"
  shows "read_xre_tif fs1 path False = read_xre_tif fs2 path False"
  using assms
  by (simp add: read_xre_tif_def open_image_def np_array_def Let_def split: sum.splits)

theorem read_ignores_description_witness:
  "[''a.tif'' \<mapsto> sample_file] ''a.tif'' = Some sample_file \<and>
   [''a.tif'' \<mapsto> sample_file\<lparr>description := None\<rparr>] ''a.tif''
     = Some (sample_file\<lparr>description := None\<rparr>) \<and>
   read_xre_tif [''a.tif'' \<mapsto> sample_file\<lparr>description := None\<rparr>] ''a.tif'' False
     = Inr (UInt16 \<lparr>nrows = 1, ncols = 2, flat = [200, 100]\<rparr>) \<and>
   read_xre_tif [''a.tif'' \<mapsto> sample_file] ''a.tif'' False
     = Inr (UInt16 \<lparr>nrows = 1, ncols = 2, flat = [200, 100]\<rparr>)"
proof -
  have a: "[''a.tif'' \<mapsto> sample_file] ''a.tif'' = Some sample_file" by simp
  have b: "[''a.tif'' \<mapsto> sample_file\<lparr>description := None\<rparr>] ''a.tif''
             = Some (sample_file\<lparr>description := None\<rparr>)" by simp
  have r: "read_xre_tif [''a.tif'' \<mapsto> sample_file\<lparr>description := None\<rparr>] ''a.tif'' False
             = Inr (UInt16 \<lparr>nrows = 1, ncols = 2, flat = [200, 100]\<rparr>)"
    by (simp add: read_xre_tif_def open_image_def np_array_def sample_file_def)
  note t = read_ignores_description
    [of "[''a.tif'' \<mapsto> sample_file]" "''a.tif''" sample_file
        "[''a.tif'' \<mapsto> sample_file\<lparr>description := None\<rparr>]" None, OF a b]
  from t r a b show ?thesis by simp
qed

end
